theory Spec2Isabelle
  imports Main
begin

section \<open>Python and numpy values used by \<^verbatim>\<open>ts_argentum.py\<close>\<close>

text \<open>
  Every exception the modelled functions can raise is a value. \<open>ValueError\<close> carries
  its message; \<open>FromstringError\<close> stands for whatever the numeric text parser of the
  library raises on text it rejects.
\<close>

datatype error =
    IndexError
  | StopIteration
  | AssertionError
  | ValueError string
  | UnboundLocalError
  | FromstringError

abbreviation nl :: char where
  "nl \<equiv> CHR 0x0A"

text \<open>
  A character is a code point below 256. \<^verbatim>\<open>str.isdigit\<close> holds there of the ten
  decimal digits and of the superscript digits U+00B2, U+00B3 and U+00B9; the
  whitespace \<^verbatim>\<open>str.rstrip()\<close> strips is tab to carriage return, the separators
  U+001C to U+001F, the space, U+0085 and U+00A0.
\<close>

definition isdigit :: "char \<Rightarrow> bool" where
  "isdigit c = (c \<in> set (''0123456789'' @ [CHR 0xB2, CHR 0xB3, CHR 0xB9]))"

definition isspace :: "char \<Rightarrow> bool" where
  "isspace c = (c \<in> set [CHR '' '', CHR 0x09, nl, CHR 0x0B, CHR 0x0C, CHR 0x0D,
                          CHR 0x1C, CHR 0x1D, CHR 0x1E, CHR 0x1F, CHR 0x85, CHR 0xA0])"

definition rstrip :: "string \<Rightarrow> string" where
  "rstrip s = rev (dropWhile isspace (rev s))"

definition startswith :: "string \<Rightarrow> string \<Rightarrow> bool" where
  "startswith s p = (take (length p) s = p)"

definition endswith :: "string \<Rightarrow> string \<Rightarrow> bool" where
  "endswith s p = (length p \<le> length s \<and> drop (length s - length p) s = p)"

text \<open>\<^verbatim>\<open>s.split(c)\<close>: the empty string splits into one empty field.\<close>

fun str_split :: "char \<Rightarrow> string \<Rightarrow> string list" where
  "str_split c [] = [[]]"
| "str_split c (x # xs) =
     (if x = c then [] # str_split c xs
      else (case str_split c xs of
              w # ws \<Rightarrow> (x # w) # ws
            | [] \<Rightarrow> [[x]]))"

text \<open>\<^verbatim>\<open>sep.join(xs)\<close>.\<close>

fun str_join :: "string \<Rightarrow> string list \<Rightarrow> string" where
  "str_join sep [] = []"
| "str_join sep [x] = x"
| "str_join sep (x # y # ys) = x @ sep @ str_join sep (y # ys)"

text \<open>\<^verbatim>\<open>str(n)\<close> of a non-negative Python integer.\<close>

definition digit_char :: "nat \<Rightarrow> char" where
  "digit_char d = ''0123456789'' ! d"

function show_nat :: "nat \<Rightarrow> string" where
  "show_nat n = (if n < 10 then [digit_char n] else show_nat (n div 10) @ [digit_char (n mod 10)])"
  by pat_completeness auto
termination
  by (relation "measure id") auto

declare show_nat.simps [simp del]

text \<open>Python slices with non-negative bounds: \<^verbatim>\<open>xs[s:e]\<close> and \<^verbatim>\<open>del xs[s:e]\<close>.\<close>

definition slice :: "nat \<Rightarrow> nat \<Rightarrow> 'a list \<Rightarrow> 'a list" where
  "slice s e xs = take (e - s) (drop s xs)"

definition del_slice :: "nat \<Rightarrow> nat \<Rightarrow> 'a list \<Rightarrow> 'a list" where
  "del_slice s e xs = (if s < e then take s xs @ drop e xs else xs)"

text \<open>
  \<^verbatim>\<open>np.diff\<close> (differences of neighbours) and \<^verbatim>\<open>np.where(mask)[0]\<close> (the indices at
  which a boolean mask holds).
\<close>

definition np_diff :: "int list \<Rightarrow> int list" where
  "np_diff xs = map (\<lambda>(a, b). b - a) (zip xs (tl xs))"

definition np_where :: "bool list \<Rightarrow> nat list" where
  "np_where flags = map fst (filter snd (enumerate 0 flags))"

section \<open>\<^verbatim>\<open>planar_order_to_newick\<close>\<close>

text \<open>
  Heights are the values \<^verbatim>\<open>np.fromstring\<close> parses. They are modelled as a linear order
  \<open>'h\<close>: every two heights compare, which holds of floating-point numbers other than
  NaN. The parser and the text \<^verbatim>\<open>"{}".format\<close> gives a height are library code and are
  parameters of the model: \<open>fromstring\<close> (\<open>None\<close> when it raises) and \<open>fmt\<close>.

  The body of the \<^verbatim>\<open>for start, end in zip(...)\<close> loop, with the list \<open>orders\<close> and the
  counter \<open>removed\<close> passed along. The assignment \<^verbatim>\<open>orders[end] = ...\<close> raises
  \<open>IndexError\<close> beyond the list; the slices do not. Indices are naturals:
  \<open>removed\<close> counts tokens deleted to the left of \<open>start\<close>, so neither subtraction
  goes below zero.
\<close>

fun merge_runs :: "string \<Rightarrow> (nat \<times> nat) list \<Rightarrow> string list \<Rightarrow> nat \<Rightarrow> error + string list" where
  "merge_runs nwk_height [] orders removed = Inr orders"
| "merge_runs nwk_height ((start0, end0) # rest) orders removed =
     (let start = start0 - removed;
          end = end0 - removed
      in if end < length orders then
           let orders1 = orders[end := ''('' @ str_join '','' (map (\<lambda>tok. tok @ nwk_height)
                                         (slice start (end + 1) orders)) @ '')''];
               orders2 = del_slice start end orders1
           in merge_runs nwk_height rest orders2 (removed + (end - start))
         else Inl IndexError)"

text \<open>The \<open>(start, end)\<close> pairs one pass of the \<^verbatim>\<open>while\<close> loop iterates over.\<close>

definition min_height_runs :: "'h::linorder \<Rightarrow> 'h list \<Rightarrow> (nat \<times> nat) list" where
  "min_height_runs target_height heights =
     (let runs_of_min_height = map (\<lambda>h. h = target_height) heights;
          bounded = [0] @ map (\<lambda>b. if b then 1 else 0) runs_of_min_height @ [0];
          diffs = np_diff bounded
      in zip (np_where (map (\<lambda>d. 0 < d) diffs)) (np_where (map (\<lambda>d. d < 0) diffs)))"

text \<open>One pass of the \<^verbatim>\<open>while\<close> loop: the new \<open>orders\<close> and the new \<open>heights\<close>.\<close>

definition cluster_pass ::
  "('h::linorder \<Rightarrow> string) \<Rightarrow> bool \<Rightarrow> string list \<Rightarrow> 'h list \<Rightarrow> error + (string list \<times> 'h list)" where
  "cluster_pass fmt branch_lengths orders heights =
     (let target_height = Min (set heights);
          runs_of_min_height = map (\<lambda>h. h = target_height) heights;
          nwk_height = (if branch_lengths then '':'' @ fmt target_height else [])
      in case merge_runs nwk_height (min_height_runs target_height heights) orders 0 of
           Inl e \<Rightarrow> Inl e
         | Inr orders' \<Rightarrow>
             Inr (orders', map fst (filter (\<lambda>(h, r). \<not> r) (zip heights runs_of_min_height))))"

function cluster_loop ::
  "('h::linorder \<Rightarrow> string) \<Rightarrow> bool \<Rightarrow> string list \<Rightarrow> 'h list \<Rightarrow> error + string list" where
  "cluster_loop fmt branch_lengths orders heights =
     (if length heights = 0 then Inr orders
      else (case cluster_pass fmt branch_lengths orders heights of
              Inl e \<Rightarrow> Inl e
            | Inr (orders', heights') \<Rightarrow> cluster_loop fmt branch_lengths orders' heights'))"
  by pat_completeness auto
termination
proof (relation "measure (\<lambda>(fmt, branch_lengths, orders, heights). length heights)")
  show "wf (measure (\<lambda>(fmt :: 'h::linorder \<Rightarrow> string, branch_lengths :: bool, orders :: string list,
                        heights :: 'h list). length heights))"
    by simp
next
  fix fmt :: "'h::linorder \<Rightarrow> string" and branch_lengths :: bool and orders :: "string list"
    and heights :: "'h list" and x2 :: "string list \<times> 'h list"
    and orders' :: "string list" and heights' :: "'h list"
  assume ne: "length heights \<noteq> 0"
    and pass: "cluster_pass fmt branch_lengths orders heights = Inr x2"
    and x2: "(orders', heights') = x2"
  have masked: "map fst (filter (\<lambda>(h, r). \<not> r) (zip hs (map (\<lambda>h. h = t) hs))) = filter (\<lambda>h. h \<noteq> t) hs"
    for hs :: "'h list" and t
    by (induction hs) auto
  from pass x2 have "heights' = filter (\<lambda>h. h \<noteq> Min (set heights)) heights"
    by (auto simp: cluster_pass_def Let_def masked split: sum.splits)
  moreover from ne have "Min (set heights) \<in> set heights"
    by (intro Min_in) auto
  ultimately have "length heights' < length heights"
    by (simp add: length_filter_less)
  then show "((fmt, branch_lengths, orders', heights'), (fmt, branch_lengths, orders, heights))
      \<in> measure (\<lambda>(fmt, branch_lengths, orders, heights). length heights)"
    by simp
qed

declare cluster_loop.simps [simp del]

text \<open>
  \<^verbatim>\<open>planar_order_to_newick(order_string, height_string, branch_lengths)\<close>. After the loop,
  \<^verbatim>\<open>orders[0]\<close> raises on an empty list.
\<close>

definition planar_order_to_newick ::
  "(string \<Rightarrow> 'h::linorder list option) \<Rightarrow> ('h \<Rightarrow> string) \<Rightarrow> string \<Rightarrow> string \<Rightarrow> bool \<Rightarrow> error + string" where
  "planar_order_to_newick fromstring fmt order_string height_string branch_lengths =
     (let orders = str_split (CHR '','') order_string
      in case fromstring height_string of
           None \<Rightarrow> Inl FromstringError
         | Some heights \<Rightarrow>
             (case cluster_loop fmt branch_lengths orders heights of
                Inl e \<Rightarrow> Inl e
              | Inr [] \<Rightarrow> Inl IndexError
              | Inr (tree # _) \<Rightarrow> Inr (tree @ '';'')))"

text \<open>
  The library on the heights of the examples: decimal integer literals separated by
  commas, which \<^verbatim>\<open>np.fromstring(s, sep=",")\<close> reads as the floats of that value, and the
  text Python prints for such a float (below \<open>10^16\<close>): the integer followed by \<open>.0\<close>.
\<close>

definition digit_value :: "char \<Rightarrow> nat" where
  "digit_value c = length (takeWhile (\<lambda>d. d \<noteq> c) ''0123456789'')"

definition read_nat :: "string \<Rightarrow> nat option" where
  "read_nat s =
     (if s \<noteq> [] \<and> list_all (\<lambda>c. c \<in> set ''0123456789'') s
      then Some (foldl (\<lambda>n c. 10 * n + digit_value c) 0 s)
      else None)"

definition fromstring_nat :: "char \<Rightarrow> string \<Rightarrow> nat list option" where
  "fromstring_nat sep s = (if s = [] then Some [] else those (map read_nat (str_split sep s)))"

definition float_str :: "nat \<Rightarrow> string" where
  "float_str n = show_nat n @ ''.0''"

section \<open>\<^verbatim>\<open>variant_positions_from_fn\<close>\<close>

text \<open>
  The file is the list of its lines. The local variable \<open>positions\<close> is bound only when
  the parse returns; the \<^verbatim>\<open>except\<close> branch logs a warning and binds nothing, and the
  \<^verbatim>\<open>return(positions)\<close> that follows reads the variable. Reading an unbound local
  raises \<open>UnboundLocalError\<close>. A file with no line falls off the loop and returns
  \<open>None\<close>. The result is what the call returns or raises, and the warnings logged.
\<close>

definition parse_warning :: "string \<Rightarrow> string" where
  "parse_warning line =
     ''Could not convert the first line to a set of floating point values:'' @ [nl] @ '' '' @ line"

definition variant_positions_from_fn ::
  "(string \<Rightarrow> 'a option) \<Rightarrow> string list \<Rightarrow> (error + 'a option) \<times> string list" where
  "variant_positions_from_fn fromstring lines =
     (case lines of
        [] \<Rightarrow> (Inr None, [])
      | line # _ \<Rightarrow>
          (let (positions, logged) =
                 (case fromstring (rstrip line) of
                    Some a \<Rightarrow> (Some a, [])
                  | None \<Rightarrow> (None, [parse_warning line]))
           in (case positions of
                 None \<Rightarrow> (Inl UnboundLocalError, logged)
               | Some a \<Rightarrow> (Inr (Some a), logged))))"

section \<open>\<^verbatim>\<open>planar_to_nexus\<close> and \<^verbatim>\<open>newicks_to_nexus\<close>\<close>

text \<open>
  The output is the list of the texts written by the successive \<^verbatim>\<open>print\<close> calls (the
  file holds their concatenation). A conversion returns what it has written and the
  exception that ended it, if any. Positions and the sequence length are values of a
  type \<open>'p\<close> that \<open>str_of\<close> prints.
\<close>

definition nexus_header :: string where
  "nexus_header = ''#NEXUS'' @ [nl] @ ''BEGIN TREES;'' @ [nl]"

definition nexus_end :: string where
  "nexus_end = ''END;'' @ [nl]"

definition tree_statement :: "string \<Rightarrow> string \<Rightarrow> string" where
  "tree_statement position tree =
     ''TREE '' @ position @ '' = '' @ tree @ (if endswith tree '';'' then [nl] else '';'' @ [nl])"

definition accounting_message :: "nat \<Rightarrow> nat \<Rightarrow> string" where
  "accounting_message trees sites =
     ''argentum bug hit: '' @ show_nat trees @ '' trees but '' @ show_nat sites @ '' sites''"

text \<open>
  The \<^verbatim>\<open>for order in argentum_planar_fh\<close> loop over the remaining lines, with the
  variables \<open>buffered_planar_order\<close>, \<open>height\<close>, \<open>site\<close> and the output so far.
  \<^verbatim>\<open>order[0]\<close> raises on an empty line, \<^verbatim>\<open>next\<close> raises \<open>StopIteration\<close> when no line
  is left, and \<^verbatim>\<open>variant_positions[site]\<close> raises beyond the index.
\<close>

fun planar_scan ::
  "(string \<Rightarrow> 'h::linorder list option) \<Rightarrow> ('h \<Rightarrow> string) \<Rightarrow> ('p \<Rightarrow> string) \<Rightarrow> 'p list \<Rightarrow>
   string list \<Rightarrow> string \<times> string \<Rightarrow> string \<Rightarrow> nat \<Rightarrow> string list \<Rightarrow>
   string list \<times> (error + (string \<times> string) \<times> string \<times> nat)" where
  "planar_scan fromstring fmt str_of variant_positions [] buffered_planar_order height site out =
     (out, Inr (buffered_planar_order, height, site))"
| "planar_scan fromstring fmt str_of variant_positions (line # rest) buffered_planar_order height site out =
     (case line of
        [] \<Rightarrow> (out, Inl IndexError)
      | c # _ \<Rightarrow>
          if \<not> isdigit c then
            planar_scan fromstring fmt str_of variant_positions rest buffered_planar_order height site out
          else
            (case rest of
               [] \<Rightarrow> (out, Inl StopIteration)
             | height_line # rest' \<Rightarrow>
                 (let order = rstrip line;
                      height' = rstrip height_line
                  in if buffered_planar_order \<noteq> (order, height') then
                       (if fst buffered_planar_order \<noteq> [] then
                          (case planar_order_to_newick fromstring fmt (fst buffered_planar_order)
                                  (snd buffered_planar_order) True of
                             Inl e \<Rightarrow> (out, Inl e)
                           | Inr newick_tree \<Rightarrow>
                               if site < length variant_positions then
                                 planar_scan fromstring fmt str_of variant_positions rest'
                                   (order, height') height' (site + 1)
                                   (out @ [tree_statement (str_of (variant_positions ! site)) newick_tree])
                               else (out, Inl IndexError))
                        else
                          planar_scan fromstring fmt str_of variant_positions rest'
                            (order, height') height' (site + 1) out)
                     else
                       planar_scan fromstring fmt str_of variant_positions rest'
                         buffered_planar_order height' (site + 1) out)))"

definition planar_to_nexus ::
  "(string \<Rightarrow> 'h::linorder list option) \<Rightarrow> ('h \<Rightarrow> string) \<Rightarrow> ('p \<Rightarrow> string) \<Rightarrow>
   string list \<Rightarrow> 'p list \<Rightarrow> 'p \<Rightarrow> string list \<times> error option" where
  "planar_to_nexus fromstring fmt str_of argentum_planar_file variant_positions seq_length =
     (case planar_scan fromstring fmt str_of variant_positions argentum_planar_file
             ([], []) [] 0 [nexus_header] of
        (out, Inl e) \<Rightarrow> (out, Some e)
      | (out, Inr (buffered_planar_order, height, site)) \<Rightarrow>
          if site \<noteq> length variant_positions then
            (out, Some (ValueError (accounting_message site (length variant_positions))))
          else if height \<noteq> [] then
            (case planar_order_to_newick fromstring fmt (fst buffered_planar_order)
                    (snd buffered_planar_order) True of
               Inl e \<Rightarrow> (out, Some e)
             | Inr newick_tree \<Rightarrow>
                 (out @ [tree_statement (str_of seq_length) newick_tree] @ [nexus_end], None))
          else (out @ [nexus_end], None))"

text \<open>
  The \<^verbatim>\<open>TRANSLATE\<close> statement \<^verbatim>\<open>newicks_to_nexus\<close> prints: the pairs \<^verbatim>\<open>i+1 i\<close> for
  \<^verbatim>\<open>i in range(num_tips)\<close>. A negative \<open>num_tips\<close> has an empty range.
\<close>

definition translate_pairs :: "int \<Rightarrow> string" where
  "translate_pairs num_tips =
     str_join ('','' @ [nl]) (map (\<lambda>i. show_nat (i + 1) @ '' '' @ show_nat i) [0..<nat num_tips])"

definition translate_statement :: "int \<Rightarrow> string" where
  "translate_statement num_tips = ''TRANSLATE'' @ [nl] @ translate_pairs num_tips @ '';'' @ [nl]"

text \<open>
  The \<^verbatim>\<open>for line in fh\<close> loop of \<^verbatim>\<open>newicks_to_nexus\<close> over the remaining lines (already
  in the order the backward reader yields them, without their line ends), with
  \<open>buffered_tree\<close>, \<open>site\<close> and the output so far. \<^verbatim>\<open>line[0]\<close> raises on an empty line
  and the \<^verbatim>\<open>assert\<close> raises \<open>AssertionError\<close>.
\<close>

definition nwk_line_start :: string where
  "nwk_line_start = ''[0]''"

fun newicks_scan ::
  "('p \<Rightarrow> string) \<Rightarrow> 'p list \<Rightarrow> string list \<Rightarrow> string \<Rightarrow> nat \<Rightarrow> string list \<Rightarrow>
   string list \<times> (error + string \<times> nat)" where
  "newicks_scan str_of variant_positions [] buffered_tree site out = (out, Inr (buffered_tree, site))"
| "newicks_scan str_of variant_positions (line # rest) buffered_tree site out =
     (case line of
        [] \<Rightarrow> (out, Inl IndexError)
      | c # _ \<Rightarrow>
          if c \<noteq> hd nwk_line_start then
            newicks_scan str_of variant_positions rest buffered_tree site out
          else if \<not> startswith line nwk_line_start then (out, Inl AssertionError)
          else
            (let tree = drop (length nwk_line_start) line
             in if buffered_tree \<noteq> tree then
                  (if buffered_tree \<noteq> [] then
                     (if site < length variant_positions then
                        newicks_scan str_of variant_positions rest tree (site + 1)
                          (out @ [tree_statement (str_of (variant_positions ! site)) buffered_tree])
                      else (out, Inl IndexError))
                   else newicks_scan str_of variant_positions rest tree (site + 1) out)
                else newicks_scan str_of variant_positions rest buffered_tree (site + 1) out))"

text \<open>
  \<^verbatim>\<open>newicks_to_nexus\<close>. The file is the list of its lines in file order, without line
  ends; \<^verbatim>\<open>FileReadBackwards\<close> yields them last line first.
\<close>

definition newicks_to_nexus ::
  "('p \<Rightarrow> string) \<Rightarrow> string list \<Rightarrow> 'p list \<Rightarrow> 'p \<Rightarrow> int \<Rightarrow> string list \<times> error option" where
  "newicks_to_nexus str_of argentum_newicks_file variant_positions seq_length num_tips =
     (case newicks_scan str_of variant_positions (rev argentum_newicks_file) [] 0
             [nexus_header, translate_statement num_tips] of
        (out, Inl e) \<Rightarrow> (out, Some e)
      | (out, Inr (buffered_tree, site)) \<Rightarrow>
          if site \<noteq> length variant_positions then
            (out, Some (ValueError (accounting_message site (length variant_positions))))
          else if buffered_tree \<noteq> [] then
            (out @ [tree_statement (str_of seq_length) buffered_tree] @ [nexus_end], None)
          else (out @ [nexus_end], None))"

section \<open>What one clustering pass computes\<close>

text \<open>
  A scan of the heights from the left that yields the same \<open>(start, end)\<close> pairs as the
  numpy expression: the state is the start of the run of target heights that is open, if
  one is, and \<open>i\<close> is the index of the next height.
\<close>

fun runs_rec :: "'h \<Rightarrow> nat option \<Rightarrow> nat \<Rightarrow> 'h list \<Rightarrow> (nat \<times> nat) list" where
  "runs_rec t None i [] = []"
| "runs_rec t (Some s) i [] = [(s, i)]"
| "runs_rec t None i (h # hs) =
     (if h = t then runs_rec t (Some i) (Suc i) hs else runs_rec t None (Suc i) hs)"
| "runs_rec t (Some s) i (h # hs) =
     (if h = t then runs_rec t (Some s) (Suc i) hs else (s, i) # runs_rec t None (Suc i) hs)"

text \<open>The token that replaces a group of adjacent tokens: the bracketed, comma-separated
  children, each with the branch-length suffix.\<close>

definition cluster_token :: "string \<Rightarrow> string list \<Rightarrow> string" where
  "cluster_token nwk_height children =
     ''('' @ str_join '','' (map (\<lambda>tok. tok @ nwk_height) children) @ '')''"

definition close_group :: "string \<Rightarrow> string list \<Rightarrow> string \<Rightarrow> string" where
  "close_group nwk_height acc tok = (if acc = [] then tok else cluster_token nwk_height (acc @ [tok]))"

text \<open>
  The pass as a recursion over tokens and heights: \<open>acc\<close> holds the tokens of the group
  that is open, and a height equal to the target keeps the group open.
\<close>

fun merge_spec :: "string \<Rightarrow> 'h \<Rightarrow> string list \<Rightarrow> string list \<Rightarrow> 'h list \<Rightarrow> string list" where
  "merge_spec nwk_height t acc [] hs = []"
| "merge_spec nwk_height t acc (tok # toks) [] = close_group nwk_height acc tok # toks"
| "merge_spec nwk_height t acc (tok # toks) (h # hs) =
     (if h = t then merge_spec nwk_height t (acc @ [tok]) toks hs
      else close_group nwk_height acc tok # merge_spec nwk_height t [] toks hs)"

text \<open>
  The \<open>(start, end)\<close> pairs of every pass of the \<^verbatim>\<open>while\<close> loop, pass by pass. The heights
  alone determine them, by the recursion of \<open>cluster_loop\<close>.
\<close>

function cluster_merges :: "'h::linorder list \<Rightarrow> (nat \<times> nat) list list" where
  "cluster_merges heights =
     (if length heights = 0 then []
      else min_height_runs (Min (set heights)) heights #
           cluster_merges (filter (\<lambda>h. h \<noteq> Min (set heights)) heights))"
  by pat_completeness auto
termination
proof (relation "measure length")
  show "wf (measure (length :: 'h list \<Rightarrow> nat))"
    by simp
next
  fix heights :: "'h::linorder list"
  assume "length heights \<noteq> 0"
  then have "Min (set heights) \<in> set heights"
    by (intro Min_in) auto
  then show "(filter (\<lambda>h. h \<noteq> Min (set heights)) heights, heights) \<in> measure length"
    by (simp add: length_filter_less)
qed

declare cluster_merges.simps [simp del]

text \<open>
  The states \<open>(orders, heights)\<close> at every evaluation of the \<^verbatim>\<open>while\<close> condition, the
  first one on entry and the last one when the loop leaves (or before the pass that
  raises), by the recursion of \<open>cluster_loop\<close>.
\<close>

function cluster_states ::
  "('h::linorder \<Rightarrow> string) \<Rightarrow> bool \<Rightarrow> string list \<Rightarrow> 'h list \<Rightarrow> (string list \<times> 'h list) list" where
  "cluster_states fmt branch_lengths orders heights =
     (orders, heights) #
     (if length heights = 0 then []
      else (case cluster_pass fmt branch_lengths orders heights of
              Inl e \<Rightarrow> []
            | Inr (orders', heights') \<Rightarrow> cluster_states fmt branch_lengths orders' heights'))"
  by pat_completeness auto
termination
proof (relation "measure (\<lambda>(fmt, branch_lengths, orders, heights). length heights)")
  show "wf (measure (\<lambda>(fmt :: 'h::linorder \<Rightarrow> string, branch_lengths :: bool, orders :: string list,
                        heights :: 'h list). length heights))"
    by simp
next
  fix fmt :: "'h::linorder \<Rightarrow> string" and branch_lengths :: bool and orders :: "string list"
    and heights :: "'h list" and x2 :: "string list \<times> 'h list"
    and orders' :: "string list" and heights' :: "'h list"
  assume ne: "length heights \<noteq> 0"
    and pass: "cluster_pass fmt branch_lengths orders heights = Inr x2"
    and x2: "(orders', heights') = x2"
  have kept: "map fst (filter (\<lambda>(h, r). \<not> r) (zip hs (map (\<lambda>h. h = t) hs))) = filter (\<lambda>h. h \<noteq> t) hs"
    for hs :: "'h list" and t
    by (induction hs) auto
  from pass x2 have "heights' = filter (\<lambda>h. h \<noteq> Min (set heights)) heights"
    by (auto simp: cluster_pass_def Let_def kept split: sum.splits)
  moreover from ne have "Min (set heights) \<in> set heights"
    by (intro Min_in) auto
  ultimately have "length heights' < length heights"
    by (simp add: length_filter_less)
  then show "((fmt, branch_lengths, orders', heights'), (fmt, branch_lengths, orders, heights))
      \<in> measure (\<lambda>(fmt, branch_lengths, orders, heights). length heights)"
    by simp
qed

declare cluster_states.simps [simp del]

text \<open>
  Bracket nesting of a text, scanned from level \<open>c\<close>: the level at its end and the
  highest level reached.
\<close>

fun paren_level :: "nat \<Rightarrow> string \<Rightarrow> nat" where
  "paren_level c [] = c"
| "paren_level c (x # xs) =
     (if x = CHR ''('' then paren_level (Suc c) xs
      else if x = CHR '')'' then paren_level (c - 1) xs
      else paren_level c xs)"

fun paren_depth :: "nat \<Rightarrow> string \<Rightarrow> nat" where
  "paren_depth c [] = c"
| "paren_depth c (x # xs) =
     (if x = CHR ''('' then max c (paren_depth (Suc c) xs)
      else if x = CHR '')'' then max c (paren_depth (c - 1) xs)
      else paren_depth c xs)"

definition paren_free :: "string \<Rightarrow> bool" where
  "paren_free s = (CHR ''('' \<notin> set s \<and> CHR '')'' \<notin> set s)"

text \<open>The left-nested binary tree over the tokens, each merge at its own height.\<close>

fun nest_left :: "('h \<Rightarrow> string) \<Rightarrow> string \<Rightarrow> string list \<Rightarrow> 'h list \<Rightarrow> string" where
  "nest_left suffix acc (tok # toks) (h # hs) = nest_left suffix (cluster_token (suffix h) [acc, tok]) toks hs"
| "nest_left suffix acc toks hs = acc"

text \<open>The branch-length suffix of a merge at height \<open>h\<close>: \<^verbatim>\<open>nwk_height\<close> of the pass whose
  target is \<open>h\<close>.\<close>

definition height_suffix :: "('h \<Rightarrow> string) \<Rightarrow> bool \<Rightarrow> 'h \<Rightarrow> string" where
  "height_suffix fmt branch_lengths h = (if branch_lengths then '':'' @ fmt h else [])"

section \<open>Records, runs and the statements of a conversion\<close>

text \<open>
  The \<open>(order, height)\<close> records the forward reader takes from a file of lines, and
  whether the file frames them: no line is empty and every order line has a line after
  it.
\<close>

fun planar_records :: "string list \<Rightarrow> (string \<times> string) list" where
  "planar_records [] = []"
| "planar_records [line] = []"
| "planar_records (line # height_line # rest) =
     (if line \<noteq> [] \<and> isdigit (hd line) then (rstrip line, rstrip height_line) # planar_records rest
      else planar_records (height_line # rest))"

fun planar_framed :: "string list \<Rightarrow> bool" where
  "planar_framed [] = True"
| "planar_framed [line] = (line \<noteq> [] \<and> \<not> isdigit (hd line))"
| "planar_framed (line # height_line # rest) =
     (line \<noteq> [] \<and> (if isdigit (hd line) then planar_framed rest else planar_framed (height_line # rest)))"

text \<open>The tree strings of the data lines of the reverse form, in the order read.\<close>

definition newick_records :: "string list \<Rightarrow> string list" where
  "newick_records file =
     map (drop (length nwk_line_start)) (filter (\<lambda>line. line \<noteq> [] \<and> hd line = hd nwk_line_start) (rev file))"

definition newick_framed :: "string list \<Rightarrow> bool" where
  "newick_framed file =
     list_all (\<lambda>line. line \<noteq> [] \<and> (if hd line = hd nwk_line_start then startswith line nwk_line_start else True)) file"

text \<open>The maximal groups of consecutive equal records.\<close>

fun group_eq :: "'a list \<Rightarrow> 'a list list" where
  "group_eq [] = []"
| "group_eq (x # xs) =
     (case group_eq xs of
        [] \<Rightarrow> [[x]]
      | g # gs \<Rightarrow> if x = hd g then (x # g) # gs else [x] # g # gs)"

text \<open>
  One \<^verbatim>\<open>TREE\<close> statement per group: \<open>i\<close> is the site index of the first record of the
  first group, a group is tagged with the position of the site after it, and the last
  group with the sequence length.
\<close>

fun run_statements ::
  "('r \<Rightarrow> string) \<Rightarrow> ('p \<Rightarrow> string) \<Rightarrow> 'p list \<Rightarrow> 'p \<Rightarrow> nat \<Rightarrow> 'r list list \<Rightarrow> string list" where
  "run_statements tree str_of variant_positions seq_length i [] = []"
| "run_statements tree str_of variant_positions seq_length i (g # gs) =
     tree_statement (str_of (if gs = [] then seq_length else variant_positions ! (i + length g)))
       (tree (hd g)) #
     run_statements tree str_of variant_positions seq_length (i + length g) gs"

text \<open>The tree of a record of the forward form, when the clusterer returns one.\<close>

definition planar_tree ::
  "(string \<Rightarrow> 'h::linorder list option) \<Rightarrow> ('h \<Rightarrow> string) \<Rightarrow> string \<times> string \<Rightarrow> string" where
  "planar_tree fromstring fmt r =
     (case planar_order_to_newick fromstring fmt (fst r) (snd r) True of
        Inr t \<Rightarrow> t
      | Inl e \<Rightarrow> [])"

text \<open>
  The flush-on-change loop that both scans run, over records: \<open>unset\<close> tells that nothing
  is buffered yet and \<open>render\<close> gives the tree of a buffered record.
\<close>

fun merge_scan ::
  "('r \<Rightarrow> bool) \<Rightarrow> ('r \<Rightarrow> error + string) \<Rightarrow> ('p \<Rightarrow> string) \<Rightarrow> 'p list \<Rightarrow>
   'r list \<Rightarrow> 'r \<Rightarrow> nat \<Rightarrow> string list \<Rightarrow> string list \<times> (error + 'r \<times> nat)" where
  "merge_scan unset render str_of variant_positions [] buffered site out = (out, Inr (buffered, site))"
| "merge_scan unset render str_of variant_positions (r # rs) buffered site out =
     (if buffered \<noteq> r then
        (if \<not> unset buffered then
           (case render buffered of
              Inl e \<Rightarrow> (out, Inl e)
            | Inr t \<Rightarrow>
                if site < length variant_positions then
                  merge_scan unset render str_of variant_positions rs r (site + 1)
                    (out @ [tree_statement (str_of (variant_positions ! site)) t])
                else (out, Inl IndexError))
         else merge_scan unset render str_of variant_positions rs r (site + 1) out)
      else merge_scan unset render str_of variant_positions rs buffered (site + 1) out)"

text \<open>
  Whether the flush-on-change loop, at site \<open>s\<close> with \<open>b\<close> buffered and the records
  \<open>rs\<close> still to read, flushes a buffered record at a site at or beyond \<open>p\<close>, the
  length of the position index: the lookup \<^verbatim>\<open>variant_positions[site]\<close> of that flush is
  out of range.
\<close>

fun flush_beyond :: "('r \<Rightarrow> bool) \<Rightarrow> nat \<Rightarrow> nat \<Rightarrow> 'r \<Rightarrow> 'r list \<Rightarrow> bool" where
  "flush_beyond unset p s b [] = False"
| "flush_beyond unset p s b (r # rs) =
     ((b \<noteq> r \<and> \<not> unset b \<and> p \<le> s) \<or> flush_beyond unset p (Suc s) r rs)"

text \<open>
  The forward form buffers nothing while the buffered order is empty; the tree of a
  buffered record is what the clusterer returns for it, with branch lengths.
\<close>

abbreviation planar_unset :: "string \<times> string \<Rightarrow> bool" where
  "planar_unset b \<equiv> fst b = []"

abbreviation planar_render ::
  "(string \<Rightarrow> 'h::linorder list option) \<Rightarrow> ('h \<Rightarrow> string) \<Rightarrow> string \<times> string \<Rightarrow> error + string" where
  "planar_render fromstring fmt r \<equiv> planar_order_to_newick fromstring fmt (fst r) (snd r) True"

text \<open>
  A well-formed file of the forward form: it frames its records, and the height line
  of every record parses to one height fewer than the order line has tokens.
\<close>

definition planar_well_formed :: "(string \<Rightarrow> 'h list option) \<Rightarrow> string list \<Rightarrow> bool" where
  "planar_well_formed fromstring planar_file =
     (planar_framed planar_file \<and>
      list_all (\<lambda>r. case fromstring (snd r) of
                       None \<Rightarrow> False
                     | Some heights \<Rightarrow> length (str_split (CHR '','') (fst r)) = length heights + 1)
        (planar_records planar_file))"

fun is_ValueError :: "error \<Rightarrow> bool" where
  "is_ValueError (ValueError m) = True"
| "is_ValueError e = False"

section \<open>The worked example of the clusterer\<close>

text \<open>
  C2, as the specification states it: on the order \<open>A,B,C\<close> with heights \<open>1,2\<close> the
  clusterer would return \<open>(A,(B,C));\<close> without branch lengths and
  \<open>(A:1,(B:2,C:2):1);\<close> with them. The code returns neither: it clusters at the
  smallest height first, so \<open>A\<close> and \<open>B\<close> merge at height 1 before \<open>C\<close> joins at
  height 2.
\<close>

theorem planar_order_to_newick_example_refuted:
  "\<not> (planar_order_to_newick (fromstring_nat (CHR '','')) float_str ''A,B,C'' ''1,2'' False =
        Inr ''(A,(B,C));'' \<and>
      planar_order_to_newick (fromstring_nat (CHR '','')) float_str ''A,B,C'' ''1,2'' True =
        Inr ''(A:1,(B:2,C:2):1);'')"
  by code_simp

text \<open>
  C2, amended: on the order \<open>A,B,C\<close> with heights \<open>1,2\<close> the clusterer returns
  \<open>((A,B),C);\<close> without branch lengths; with them it returns
  \<open>((A:h1,B:h1):h2,C:h2);\<close>, where \<open>h1\<close> and \<open>h2\<close> are the texts the formatter gives the
  heights 1 and 2, which for Python floats are \<open>1.0\<close> and \<open>2.0\<close>.
\<close>

theorem planar_order_to_newick_example:
  "planar_order_to_newick (fromstring_nat (CHR '','')) fmt ''A,B,C'' ''1,2'' False =
     Inr ''((A,B),C);'' \<and>
   planar_order_to_newick (fromstring_nat (CHR '','')) fmt ''A,B,C'' ''1,2'' True =
     Inr (''((A:'' @ fmt 1 @ '',B:'' @ fmt 1 @ ''):'' @ fmt 2 @ '',C:'' @ fmt 2 @ '');'') \<and>
   planar_order_to_newick (fromstring_nat (CHR '','')) float_str ''A,B,C'' ''1,2'' True =
     Inr ''((A:1.0,B:1.0):2.0,C:2.0);''"
proof (intro conjI)
  show "planar_order_to_newick (fromstring_nat (CHR '','')) fmt ''A,B,C'' ''1,2'' False =
      Inr ''((A,B),C);''"
    by code_simp
  show "planar_order_to_newick (fromstring_nat (CHR '','')) fmt ''A,B,C'' ''1,2'' True =
      Inr (''((A:'' @ fmt 1 @ '',B:'' @ fmt 1 @ ''):'' @ fmt 2 @ '',C:'' @ fmt 2 @ '');'')"
    by code_simp simp
  show "planar_order_to_newick (fromstring_nat (CHR '','')) float_str ''A,B,C'' ''1,2'' True =
      Inr ''((A:1.0,B:1.0):2.0,C:2.0);''"
    by code_simp
qed

section \<open>The positions reader\<close>

text \<open>
  C8 says that a first line that fails to parse makes \<open>variant_positions_from_fn\<close> log a
  warning and return without raising. The code logs the warning and then evaluates
  \<^verbatim>\<open>return(positions)\<close> with \<open>positions\<close> never bound: whenever the parser raises on
  the first line, the call logs the warning and raises \<open>UnboundLocalError\<close>.
\<close>

theorem variant_positions_from_fn_unbound:
  "fromstring (rstrip line) = None \<Longrightarrow>
   variant_positions_from_fn fromstring (line # rest) =
     (Inl UnboundLocalError, [parse_warning line])"
  by (simp add: variant_positions_from_fn_def)

theorem variant_positions_from_fn_unbound_witness:
  "variant_positions_from_fn (fromstring_nat (CHR '' '')) [''abc'' @ [nl]] =
     (Inl UnboundLocalError, [parse_warning (''abc'' @ [nl])])"
  by (rule variant_positions_from_fn_unbound) code_simp

section \<open>The envelope and the translation table\<close>

lemma newicks_scan_extends:
  "\<exists>more. fst (newicks_scan str_of vp lines buffered_tree site out) = out @ more"
proof (induction lines arbitrary: buffered_tree site out)
  case Nil
  then show ?case by simp
next
  case (Cons line rest)
  have step: "\<exists>more. fst (newicks_scan str_of vp rest b s (out @ extra)) = out @ more" for b s extra
    using Cons.IH [of b s "out @ extra"] by auto
  show ?case
    using step [of _ _ "[]"] step
    by (cases line) (auto simp: Let_def)
qed

lemma newicks_to_nexus_extends:
  "\<exists>more. fst (newicks_to_nexus str_of newicks_file vp seq_length num_tips) =
     nexus_header # translate_statement num_tips # more"
proof -
  obtain out r where scan:
    "newicks_scan str_of vp (rev newicks_file) [] 0 [nexus_header, translate_statement num_tips] = (out, r)"
    by (cases "newicks_scan str_of vp (rev newicks_file) [] 0 [nexus_header, translate_statement num_tips]")
  obtain more where "out = [nexus_header, translate_statement num_tips] @ more"
    using newicks_scan_extends [of str_of vp "rev newicks_file" "[]" 0
        "[nexus_header, translate_statement num_tips]"]
    by (auto simp: scan)
  then show ?thesis
    by (auto simp: newicks_to_nexus_def scan split: sum.splits)
qed

lemma translate_reindex:
  "map (\<lambda>i. show_nat (i + 1) @ '' '' @ show_nat i) [0..<n] =
   map (\<lambda>k. show_nat k @ '' '' @ show_nat (k - 1)) [1..<Suc n]"
proof -
  have "[1..<Suc n] = map Suc [0..<n]"
    by (simp add: map_Suc_upt)
  then show ?thesis
    by (simp only: map_map comp_def) simp
qed

text \<open>
  C9: whatever the input and however the conversion ends, the second text
  \<open>newicks_to_nexus\<close> writes, right after the header, is the \<^verbatim>\<open>TRANSLATE\<close> statement
  listing the pairs \<open>k k-1\<close> for \<open>k\<close> from 1 to the tip count, joined by a comma and a
  newline and closed by a semicolon; for three tips the pairs are \<open>1 0\<close>, \<open>2 1\<close>,
  \<open>3 2\<close>.
\<close>

theorem newicks_to_nexus_translate:
  "(\<exists>more. fst (newicks_to_nexus str_of argentum_newicks_file variant_positions seq_length num_tips) =
      nexus_header #
      (''TRANSLATE'' @ [nl] @
       str_join ('','' @ [nl])
         (map (\<lambda>k. show_nat k @ '' '' @ show_nat (k - 1)) [1..<Suc (nat num_tips)]) @
       '';'' @ [nl]) # more) \<and>
   translate_pairs 3 @ '';'' = ''1 0,'' @ [nl] @ ''2 1,'' @ [nl] @ ''3 2;''"
proof
  have "translate_statement num_tips =
      ''TRANSLATE'' @ [nl] @
       str_join ('','' @ [nl])
         (map (\<lambda>k. show_nat k @ '' '' @ show_nat (k - 1)) [1..<Suc (nat num_tips)]) @
       '';'' @ [nl]"
    unfolding translate_statement_def translate_pairs_def translate_reindex ..
  then show "\<exists>more. fst (newicks_to_nexus str_of argentum_newicks_file variant_positions seq_length num_tips) =
      nexus_header #
      (''TRANSLATE'' @ [nl] @
       str_join ('','' @ [nl])
         (map (\<lambda>k. show_nat k @ '' '' @ show_nat (k - 1)) [1..<Suc (nat num_tips)]) @
       '';'' @ [nl]) # more"
    using newicks_to_nexus_extends [of str_of argentum_newicks_file variant_positions seq_length num_tips]
    by (simp only:)
next
  show "translate_pairs 3 @ '';'' = ''1 0,'' @ [nl] @ ''2 1,'' @ [nl] @ ''3 2;''"
    by code_simp
qed

lemma planar_scan_no_data:
  "list_all (\<lambda>line. line \<noteq> [] \<and> \<not> isdigit (hd line)) planar_file \<Longrightarrow>
   planar_scan fromstring fmt str_of vp planar_file b h site out = (out, Inr (b, h, site))"
  by (induction planar_file) (auto split: list.splits)

text \<open>
  C10: when no line of the forward-form file starts with a digit and the position index
  is empty, \<open>planar_to_nexus\<close> writes the header (the lines \<open>#NEXUS\<close> and
  \<open>BEGIN TREES;\<close>) and \<open>END;\<close>, no \<^verbatim>\<open>TREE\<close> statement, and raises nothing.
\<close>

theorem planar_to_nexus_no_data:
  assumes "\<forall>line \<in> set argentum_planar_file. line \<noteq> [] \<and> \<not> isdigit (hd line)"
  shows "planar_to_nexus fromstring fmt str_of argentum_planar_file [] seq_length =
           ([''#NEXUS'' @ [nl] @ ''BEGIN TREES;'' @ [nl], ''END;'' @ [nl]], None)"
  using assms planar_scan_no_data [of argentum_planar_file fromstring fmt str_of "[]"]
  by (simp add: planar_to_nexus_def list_all_iff nexus_header_def nexus_end_def)

theorem planar_to_nexus_no_data_witness:
  "planar_to_nexus (fromstring_nat (CHR '','')) float_str show_nat
     [''# no trees'' @ [nl], [nl]] [] 100 =
   ([''#NEXUS'' @ [nl] @ ''BEGIN TREES;'' @ [nl], ''END;'' @ [nl]], None)"
  by (rule planar_to_nexus_no_data) (simp add: isdigit_def)

section \<open>One clustering pass\<close>

lemma np_diff_Cons2: "np_diff (a # b # xs) = (b - a) # np_diff (b # xs)"
  by (simp add: np_diff_def)

lemma np_diff_single: "np_diff [a] = []"
  by (simp add: np_diff_def)

lemma runs_rec_numpy:
  fixes t :: "'h" and hs :: "'h list"
  shows
  "zip (map fst (filter snd (enumerate i (map (\<lambda>d. 0 < d)
          (np_diff (0 # map (\<lambda>b. if b then 1 else 0) (map (\<lambda>h. h = t) hs) @ [0]))))))
       (map fst (filter snd (enumerate i (map (\<lambda>d. d < 0)
          (np_diff (0 # map (\<lambda>b. if b then 1 else 0) (map (\<lambda>h. h = t) hs) @ [0]))))))
   = runs_rec t None i hs \<and>
   zip (s # map fst (filter snd (enumerate i (map (\<lambda>d. 0 < d)
          (np_diff (1 # map (\<lambda>b. if b then 1 else 0) (map (\<lambda>h. h = t) hs) @ [0]))))))
       (map fst (filter snd (enumerate i (map (\<lambda>d. d < 0)
          (np_diff (1 # map (\<lambda>b. if b then 1 else 0) (map (\<lambda>h. h = t) hs) @ [0]))))))
   = runs_rec t (Some s) i hs"
proof (induction hs arbitrary: i s)
  case Nil
  show ?case by (simp add: np_diff_Cons2 np_diff_single)
next
  case (Cons h hs)
  show ?case
    using Cons.IH [of "Suc i" s] Cons.IH [of "Suc i" i]
    by (simp add: np_diff_Cons2)
qed

lemma min_height_runs_rec: "min_height_runs t hs = runs_rec t None 0 hs"
  using runs_rec_numpy [of 0 t hs]
  by (simp add: min_height_runs_def np_where_def Let_def)


lemma merge_runs_step:
  assumes "acc \<noteq> []"
  shows "merge_runs nwk ((removed + length pre, removed + length pre + length acc) # rest)
           (pre @ acc @ tok # toks) removed =
         merge_runs nwk rest (pre @ cluster_token nwk (acc @ [tok]) # toks) (removed + length acc)"
proof -
  have upd: "(pre @ acc @ tok # toks)[length pre + length acc := x] = pre @ acc @ x # toks" for x
    by (simp add: list_update_append)
  have sl: "slice (length pre) (Suc (length pre + length acc)) (pre @ acc @ tok # toks) = acc @ [tok]"
    by (simp add: slice_def)
  have del: "del_slice (length pre) (length pre + length acc) (pre @ acc @ x # toks) = pre @ x # toks" for x
    using assms by (simp add: del_slice_def)
  show ?thesis
    by (simp add: Let_def upd sl del cluster_token_def)
qed

declare merge_runs.simps(2) [simp del]

lemma merge_runs_spec_gen:
  "(\<forall>toks pre i removed. length hs < length toks \<longrightarrow> i = removed + length pre \<longrightarrow>
      merge_runs nwk (runs_rec t None i hs) (pre @ toks) removed =
        Inr (pre @ merge_spec nwk t [] toks hs)) \<and>
   (\<forall>toks acc pre s i removed. length hs < length toks \<longrightarrow> acc \<noteq> [] \<longrightarrow>
      s = removed + length pre \<longrightarrow> i = s + length acc \<longrightarrow>
      merge_runs nwk (runs_rec t (Some s) i hs) (pre @ acc @ toks) removed =
        Inr (pre @ merge_spec nwk t acc toks hs))"
proof (induction hs)
  case Nil
  show ?case
  proof (intro conjI allI impI)
    fix toks pre :: "string list" and i removed
    assume "length [] < length toks"
    then obtain tok toks' where "toks = tok # toks'" by (cases toks) auto
    then show "merge_runs nwk (runs_rec t None i []) (pre @ toks) removed =
        Inr (pre @ merge_spec nwk t [] toks [])"
      by (simp add: close_group_def)
  next
    fix toks acc pre :: "string list" and s i removed
    assume "length [] < length toks" and acc: "acc \<noteq> []"
      and s: "s = removed + length pre" and i: "i = s + length acc"
    then obtain tok toks' where toks: "toks = tok # toks'" by (cases toks) auto
    show "merge_runs nwk (runs_rec t (Some s) i []) (pre @ acc @ toks) removed =
        Inr (pre @ merge_spec nwk t acc toks [])"
      using acc
      by (simp add: toks s i close_group_def merge_runs_step [OF acc])
  qed
next
  case (Cons h hs)
  note IHnone = Cons.IH [THEN conjunct1, rule_format]
  note IHsome = Cons.IH [THEN conjunct2, rule_format]
  show ?case
  proof (intro conjI allI impI)
    fix toks pre :: "string list" and i removed
    assume len: "length (h # hs) < length toks" and i: "i = removed + length pre"
    then obtain tok toks' where toks: "toks = tok # toks'" and len': "length hs < length toks'"
      by (cases toks) auto
    show "merge_runs nwk (runs_rec t None i (h # hs)) (pre @ toks) removed =
        Inr (pre @ merge_spec nwk t [] toks (h # hs))"
    proof (cases "h = t")
      case True
      then show ?thesis
        using IHsome [of toks' "[tok]" i removed pre "Suc i"] len' i
        by (simp add: toks)
    next
      case False
      then show ?thesis
        using IHnone [of toks' "Suc i" removed "pre @ [tok]"] len' i
        by (simp add: toks close_group_def)
    qed
  next
    fix toks acc pre :: "string list" and s i removed
    assume len: "length (h # hs) < length toks" and acc: "acc \<noteq> []"
      and s: "s = removed + length pre" and i: "i = s + length acc"
    then obtain tok toks' where toks: "toks = tok # toks'" and len': "length hs < length toks'"
      by (cases toks) auto
    show "merge_runs nwk (runs_rec t (Some s) i (h # hs)) (pre @ acc @ toks) removed =
        Inr (pre @ merge_spec nwk t acc toks (h # hs))"
    proof (cases "h = t")
      case True
      then show ?thesis
        using IHsome [of toks' "acc @ [tok]" s removed pre "Suc i"] len' acc s i
        by (simp add: toks)
    next
      case False
      have "merge_runs nwk ((s, i) # runs_rec t None (Suc i) hs) (pre @ acc @ tok # toks') removed =
          merge_runs nwk (runs_rec t None (Suc i) hs)
            (pre @ cluster_token nwk (acc @ [tok]) # toks') (removed + length acc)"
        unfolding s i by (rule merge_runs_step [OF acc])
      also have "\<dots> = Inr ((pre @ [cluster_token nwk (acc @ [tok])]) @ merge_spec nwk t [] toks' hs)"
        using IHnone [of toks' "Suc i" "removed + length acc" "pre @ [cluster_token nwk (acc @ [tok])]"]
          len' s i
        by simp
      finally show ?thesis
        using False acc by (simp add: toks close_group_def)
    qed
  qed
qed

lemma merge_runs_spec:
  "length hs < length orders \<Longrightarrow>
   merge_runs nwk (min_height_runs t hs) orders 0 = Inr (merge_spec nwk t [] orders hs)"
  using merge_runs_spec_gen [of hs nwk t, THEN conjunct1, rule_format, of orders 0 0 "[]"]
  by (simp add: min_height_runs_rec)

lemma mask_filter:
  "map fst (filter (\<lambda>(h, r). \<not> r) (zip hs (map (\<lambda>h. h = t) hs))) = filter (\<lambda>h. h \<noteq> t) hs"
  by (induction hs) auto

lemma cluster_pass_spec:
  "length hs < length orders \<Longrightarrow>
   cluster_pass fmt bl orders hs =
     Inr (merge_spec (if bl then '':'' @ fmt (Min (set hs)) else []) (Min (set hs)) [] orders hs,
          filter (\<lambda>h. h \<noteq> Min (set hs)) hs)"
  by (simp add: cluster_pass_def Let_def merge_runs_spec mask_filter)

lemma length_merge_spec:
  "length hs < length toks \<Longrightarrow>
   length (merge_spec nwk t acc toks hs) + length (filter (\<lambda>h. h = t) hs) = length toks"
proof (induction hs arbitrary: toks acc)
  case Nil
  then show ?case by (cases toks) auto
next
  case (Cons h hs)
  then obtain tok toks' where "toks = tok # toks'" "length hs < length toks'"
    by (cases toks) auto
  then show ?case
    using Cons.IH [of toks'] by auto
qed

lemma cluster_pass_invariant:
  assumes "length orders = length heights + 1"
  shows "\<exists>orders' heights'. cluster_pass fmt bl orders heights = Inr (orders', heights') \<and>
           length orders' + length (filter (\<lambda>h. h = Min (set heights)) heights) = length orders \<and>
           length heights' + length (filter (\<lambda>h. h = Min (set heights)) heights) = length heights \<and>
           length orders' = length heights' + 1"
proof -
  let ?t = "Min (set heights)"
  let ?nwk = "if bl then '':'' @ fmt ?t else []"
  have lt: "length heights < length orders"
    using assms by simp
  have a: "length (merge_spec ?nwk ?t [] orders heights) + length (filter (\<lambda>h. h = ?t) heights) = length orders"
    using length_merge_spec [OF lt] .
  have b: "length (filter (\<lambda>h. h \<noteq> ?t) heights) + length (filter (\<lambda>h. h = ?t) heights) = length heights"
    using sum_length_filter_compl [of "\<lambda>h. h = ?t" heights] by simp
  show ?thesis
    using a b assms
    by (simp only: cluster_pass_spec [OF lt]) auto
qed

lemma cluster_loop_single:
  "length orders = length heights + 1 \<Longrightarrow> \<exists>tok. cluster_loop fmt bl orders heights = Inr [tok]"
proof (induction heights arbitrary: orders rule: length_induct)
  case (1 heights)
  show ?case
  proof (cases "heights = []")
    case True
    with "1.prems" obtain tok where "orders = [tok]"
      by (cases orders) auto
    with True show ?thesis
      by (simp add: cluster_loop.simps)
  next
    case False
    obtain orders' heights' where pass: "cluster_pass fmt bl orders heights = Inr (orders', heights')"
      and h: "length heights' + length (filter (\<lambda>h. h = Min (set heights)) heights) = length heights"
      and inv: "length orders' = length heights' + 1"
      using cluster_pass_invariant [OF "1.prems", of fmt bl] by blast
    have "Min (set heights) \<in> set heights"
      using False by (intro Min_in) auto
    then have "filter (\<lambda>h. h = Min (set heights)) heights \<noteq> []"
      by (simp add: filter_empty_conv)
    with h have "length heights' < length heights"
      by (cases "filter (\<lambda>h. h = Min (set heights)) heights") auto
    then obtain tok where "cluster_loop fmt bl orders' heights' = Inr [tok]"
      using "1.IH" inv by blast
    then show ?thesis
      using False pass by (subst cluster_loop.simps) simp
  qed
qed


lemma cluster_loop_states:
  "length orders = length heights + 1 \<Longrightarrow>
   list_all (\<lambda>(os, hs). length os = length hs + 1) (cluster_states fmt bl orders heights) \<and>
   (\<exists>tok. last (cluster_states fmt bl orders heights) = ([tok], []) \<and>
      cluster_loop fmt bl orders heights = Inr [tok])"
proof (induction heights arbitrary: orders rule: length_induct)
  case (1 heights)
  show ?case
  proof (cases "heights = []")
    case True
    with "1.prems" obtain tok where "orders = [tok]"
      by (cases orders) auto
    with True show ?thesis
      by (simp add: cluster_loop.simps cluster_states.simps)
  next
    case False
    obtain orders' heights' where pass: "cluster_pass fmt bl orders heights = Inr (orders', heights')"
      and h: "length heights' + length (filter (\<lambda>h. h = Min (set heights)) heights) = length heights"
      and inv: "length orders' = length heights' + 1"
      using cluster_pass_invariant [OF "1.prems", of fmt bl] by blast
    have "Min (set heights) \<in> set heights"
      using False by (intro Min_in) auto
    then have "filter (\<lambda>h. h = Min (set heights)) heights \<noteq> []"
      by (simp add: filter_empty_conv)
    with h have "length heights' < length heights"
      by (cases "filter (\<lambda>h. h = Min (set heights)) heights") auto
    then have IH: "list_all (\<lambda>(os, hs). length os = length hs + 1) (cluster_states fmt bl orders' heights') \<and>
      (\<exists>tok. last (cluster_states fmt bl orders' heights') = ([tok], []) \<and>
         cluster_loop fmt bl orders' heights' = Inr [tok])"
      using "1.IH" inv by blast
    have ne: "cluster_states fmt bl orders' heights' \<noteq> []"
      by (subst cluster_states.simps) simp
    have states: "cluster_states fmt bl orders heights = (orders, heights) # cluster_states fmt bl orders' heights'"
      using False pass by (subst cluster_states.simps) simp
    have loop: "cluster_loop fmt bl orders heights = cluster_loop fmt bl orders' heights'"
      using False pass by (subst cluster_loop.simps) simp
    show ?thesis
      unfolding states loop using IH ne "1.prems" by simp
  qed
qed


text \<open>
  C7: from a state with one height fewer than tokens, a pass of the clustering loop
  removes as many tokens as heights, at least one, and leaves a state with one height
  fewer than tokens, from which the loop goes on; so every state in which the loop
  tests its condition has one height fewer than tokens, the last of them holds no
  height and a single token, and that token is what the loop returns and
  \<open>planar_order_to_newick\<close> closes with a semicolon. With no height left the loop
  returns the order as it is.
\<close>

theorem cluster_loop_invariant:
  assumes "length orders = length heights + 1"
  shows "(heights = [] \<longrightarrow> cluster_loop fmt branch_lengths orders heights = Inr orders) \<and>
         (heights \<noteq> [] \<longrightarrow>
            (\<exists>orders' heights'. cluster_pass fmt branch_lengths orders heights = Inr (orders', heights') \<and>
               length orders - length orders' = length heights - length heights' \<and>
               length heights' < length heights \<and>
               length orders' = length heights' + 1 \<and>
               cluster_loop fmt branch_lengths orders heights =
                 cluster_loop fmt branch_lengths orders' heights' \<and>
               cluster_states fmt branch_lengths orders heights =
                 (orders, heights) # cluster_states fmt branch_lengths orders' heights')) \<and>
         list_all (\<lambda>(os, hs). length hs = length os - 1 \<and> os \<noteq> [])
           (cluster_states fmt branch_lengths orders heights) \<and>
         (\<exists>tok. last (cluster_states fmt branch_lengths orders heights) = ([tok], []) \<and>
            cluster_loop fmt branch_lengths orders heights = Inr [tok] \<and>
            (fromstring height_string = Some heights \<and> str_split (CHR '','') order_string = orders \<longrightarrow>
               planar_order_to_newick fromstring fmt order_string height_string branch_lengths =
                 Inr (tok @ '';'')))"
proof (intro conjI impI)
  assume "heights = []"
  then show "cluster_loop fmt branch_lengths orders heights = Inr orders"
    by (simp add: cluster_loop.simps)
next
  assume ne: "heights \<noteq> []"
  obtain orders' heights' where pass: "cluster_pass fmt branch_lengths orders heights = Inr (orders', heights')"
    and o: "length orders' + length (filter (\<lambda>h. h = Min (set heights)) heights) = length orders"
    and h: "length heights' + length (filter (\<lambda>h. h = Min (set heights)) heights) = length heights"
    and inv: "length orders' = length heights' + 1"
    using cluster_pass_invariant [OF assms, of fmt branch_lengths] by blast
  have "Min (set heights) \<in> set heights"
    using ne by (intro Min_in) auto
  then have "filter (\<lambda>h. h = Min (set heights)) heights \<noteq> []"
    by (simp add: filter_empty_conv)
  then have "0 < length (filter (\<lambda>h. h = Min (set heights)) heights)"
    by simp
  with o h inv have counts: "length orders - length orders' = length heights - length heights' \<and>
      length heights' < length heights \<and> length orders' = length heights' + 1"
    by arith
  have loop: "cluster_loop fmt branch_lengths orders heights = cluster_loop fmt branch_lengths orders' heights'"
    using ne pass by (subst cluster_loop.simps) simp
  have states: "cluster_states fmt branch_lengths orders heights =
      (orders, heights) # cluster_states fmt branch_lengths orders' heights'"
    using ne pass by (subst cluster_states.simps) simp
  from pass counts loop states
  show "\<exists>orders' heights'. cluster_pass fmt branch_lengths orders heights = Inr (orders', heights') \<and>
               length orders - length orders' = length heights - length heights' \<and>
               length heights' < length heights \<and>
               length orders' = length heights' + 1 \<and>
               cluster_loop fmt branch_lengths orders heights =
                 cluster_loop fmt branch_lengths orders' heights' \<and>
               cluster_states fmt branch_lengths orders heights =
                 (orders, heights) # cluster_states fmt branch_lengths orders' heights'"
    by blast
next
  have "list_all (\<lambda>(os, hs). length os = length hs + 1) (cluster_states fmt branch_lengths orders heights)"
    using cluster_loop_states [OF assms] by blast
  then show "list_all (\<lambda>(os, hs). length hs = length os - 1 \<and> os \<noteq> [])
           (cluster_states fmt branch_lengths orders heights)"
    by (rule list.pred_mono_strong) auto
next
  obtain tok where tok: "last (cluster_states fmt branch_lengths orders heights) = ([tok], [])"
    "cluster_loop fmt branch_lengths orders heights = Inr [tok]"
    using cluster_loop_states [OF assms, of fmt branch_lengths] by blast
  then have "fromstring height_string = Some heights \<and> str_split (CHR '','') order_string = orders \<longrightarrow>
      planar_order_to_newick fromstring fmt order_string height_string branch_lengths = Inr (tok @ '';'')"
    by (auto simp: planar_order_to_newick_def)
  with tok show "\<exists>tok. last (cluster_states fmt branch_lengths orders heights) = ([tok], []) \<and>
            cluster_loop fmt branch_lengths orders heights = Inr [tok] \<and>
            (fromstring height_string = Some heights \<and> str_split (CHR '','') order_string = orders \<longrightarrow>
               planar_order_to_newick fromstring fmt order_string height_string branch_lengths =
                 Inr (tok @ '';''))"
    by blast
qed

theorem cluster_loop_invariant_witness:
  "cluster_pass float_str True [''A'', ''B'', ''C'', ''D''] [2, 1, 2 :: nat] =
     Inr ([''A'', ''(B:1.0,C:1.0)'', ''D''], [2, 2]) \<and>
   cluster_loop float_str True [''A'', ''B'', ''C'', ''D''] [2, 1, 2 :: nat] =
     cluster_loop float_str True [''A'', ''(B:1.0,C:1.0)'', ''D''] [2, 2] \<and>
   cluster_states float_str True [''A'', ''B'', ''C'', ''D''] [2, 1, 2 :: nat] =
     [([''A'', ''B'', ''C'', ''D''], [2, 1, 2]),
      ([''A'', ''(B:1.0,C:1.0)'', ''D''], [2, 2]),
      ([''(A:2.0,(B:1.0,C:1.0):2.0,D:2.0)''], [])] \<and>
   cluster_loop float_str True [''A'', ''B'', ''C'', ''D''] [2, 1, 2 :: nat] =
     Inr [''(A:2.0,(B:1.0,C:1.0):2.0,D:2.0)''] \<and>
   planar_order_to_newick (fromstring_nat (CHR '','')) float_str ''A,B,C,D'' ''2,1,2'' True =
     Inr ''(A:2.0,(B:1.0,C:1.0):2.0,D:2.0);''"
proof -
  have a: "length [''A'', ''B'', ''C'', ''D''] = length [2, 1, 2 :: nat] + 1"
    by simp
  have ne: "[2, 1, 2 :: nat] \<noteq> []"
    by simp
  have b: "fromstring_nat (CHR '','') ''2,1,2'' = Some [2, 1, 2] \<and>
      str_split (CHR '','') ''A,B,C,D'' = [''A'', ''B'', ''C'', ''D'']"
    by code_simp
  have pass: "cluster_pass float_str True [''A'', ''B'', ''C'', ''D''] [2, 1, 2 :: nat] =
     Inr ([''A'', ''(B:1.0,C:1.0)'', ''D''], [2, 2])"
    by code_simp
  have states: "cluster_states float_str True [''A'', ''B'', ''C'', ''D''] [2, 1, 2 :: nat] =
     [([''A'', ''B'', ''C'', ''D''], [2, 1, 2]),
      ([''A'', ''(B:1.0,C:1.0)'', ''D''], [2, 2]),
      ([''(A:2.0,(B:1.0,C:1.0):2.0,D:2.0)''], [])]"
    by code_simp
  note T = cluster_loop_invariant [OF a, where fmt = float_str and branch_lengths = True
      and fromstring = "fromstring_nat (CHR '','')" and height_string = "''2,1,2''"
      and order_string = "''A,B,C,D''"]
  from T ne pass have loop: "cluster_loop float_str True [''A'', ''B'', ''C'', ''D''] [2, 1, 2 :: nat] =
     cluster_loop float_str True [''A'', ''(B:1.0,C:1.0)'', ''D''] [2, 2]"
    by auto
  from T b obtain tok where tok: "last (cluster_states float_str True [''A'', ''B'', ''C'', ''D''] [2, 1, 2 :: nat]) = ([tok], [])"
    "cluster_loop float_str True [''A'', ''B'', ''C'', ''D''] [2, 1, 2 :: nat] = Inr [tok]"
    "planar_order_to_newick (fromstring_nat (CHR '','')) float_str ''A,B,C,D'' ''2,1,2'' True = Inr (tok @ '';'')"
    by blast
  from tok(1) have "tok = ''(A:2.0,(B:1.0,C:1.0):2.0,D:2.0)''"
    unfolding states by simp
  with tok(2,3) loop pass states show ?thesis
    by simp
qed








section \<open>Strictly increasing heights\<close>

lemma runs_rec_absent: "t \<notin> set hs \<Longrightarrow> runs_rec t None i hs = []"
  by (induction hs arbitrary: i) auto

lemma merge_spec_absent:
  "t \<notin> set hs \<Longrightarrow> length hs < length toks \<Longrightarrow>
   merge_spec nwk t acc toks hs = close_group nwk acc (hd toks) # tl toks"
proof (induction hs arbitrary: toks acc)
  case Nil
  then show ?case by (cases toks) auto
next
  case (Cons h hs)
  then obtain tok toks' where toks: "toks = tok # toks'" "length hs < length toks'"
    by (cases toks) auto
  then obtain tok' toks'' where "toks' = tok' # toks''"
    by (cases toks') auto
  with Cons toks show ?case
    by (auto simp: close_group_def)
qed

lemma increasing_head:
  fixes h :: "'h::linorder"
  assumes "sorted_wrt (<) (h # hs)"
  shows "Min (set (h # hs)) = h" and "h \<notin> set hs" and "filter (\<lambda>x. x \<noteq> h) (h # hs) = hs"
proof -
  have less: "\<forall>x \<in> set hs. h < x"
    using assms by simp
  show "Min (set (h # hs)) = h"
    by (rule Min_eqI) (use less in \<open>auto simp: less_imp_le\<close>)
  show "h \<notin> set hs"
    using less by auto
  then show "filter (\<lambda>x. x \<noteq> h) (h # hs) = hs"
    by (auto simp: filter_id_conv)
qed

lemma increasing_runs:
  fixes h :: "'h::linorder"
  assumes "sorted_wrt (<) (h # hs)"
  shows "min_height_runs h (h # hs) = [(0, 1)]"
proof -
  have absent: "h \<notin> set hs"
    using increasing_head(2) [OF assms] .
  have "runs_rec h (Some 0) (Suc 0) hs = [(0, 1)]"
  proof (cases hs)
    case Nil
    then show ?thesis by simp
  next
    case (Cons x xs)
    with absent show ?thesis
      by (auto simp: runs_rec_absent)
  qed
  then show ?thesis
    by (simp add: min_height_runs_rec)
qed

lemma cluster_merges_increasing:
  fixes heights :: "'h::linorder list"
  shows "sorted_wrt (<) heights \<Longrightarrow> cluster_merges heights = replicate (length heights) [(0, 1)]"
proof (induction heights)
  case Nil
  then show ?case by (simp add: cluster_merges.simps)
next
  case (Cons h hs)
  have tail: "sorted_wrt (<) hs"
    using Cons.prems by simp
  have "cluster_merges (h # hs) = min_height_runs (Min (set (h # hs))) (h # hs) #
      cluster_merges (filter (\<lambda>x. x \<noteq> Min (set (h # hs))) (h # hs))"
    by (subst cluster_merges.simps) simp
  also have "\<dots> = [(0, 1)] # cluster_merges hs"
    by (simp only: increasing_head(1) [OF Cons.prems] increasing_runs [OF Cons.prems]
        increasing_head(3) [OF Cons.prems])
  finally show ?case
    using Cons.IH [OF tail] by simp
qed

lemma cluster_loop_increasing:
  fixes heights :: "'h::linorder list"
  shows "sorted_wrt (<) heights \<Longrightarrow> length toks = length heights \<Longrightarrow>
   cluster_loop fmt bl (tok # toks) heights = Inr [nest_left (height_suffix fmt bl) tok toks heights]"
proof (induction heights arbitrary: tok toks)
  case Nil
  then show ?case by (simp add: cluster_loop.simps)
next
  case (Cons h hs)
  then obtain tok' toks' where toks: "toks = tok' # toks'" and len: "length toks' = length hs"
    by (cases toks) auto
  have tail: "sorted_wrt (<) hs"
    using Cons.prems by simp
  have lt: "length (h # hs) < length (tok # toks)"
    using Cons.prems by simp
  have spec: "merge_spec nwk h [] (tok # tok' # toks') (h # hs) = cluster_token nwk [tok, tok'] # toks'" for nwk
    using merge_spec_absent [OF increasing_head(2) [OF Cons.prems(1)], of "tok' # toks'" nwk "[tok]"] len
    by (simp add: close_group_def)
  have "cluster_pass fmt bl (tok # toks) (h # hs) =
      Inr (merge_spec (height_suffix fmt bl h) h [] (tok # toks) (h # hs), hs)"
    unfolding cluster_pass_spec [OF lt] increasing_head(1) [OF Cons.prems(1)]
      increasing_head(3) [OF Cons.prems(1)] height_suffix_def ..
  then have pass: "cluster_pass fmt bl (tok # toks) (h # hs) =
      Inr (cluster_token (height_suffix fmt bl h) [tok, tok'] # toks', hs)"
    by (simp only: toks spec)
  show ?case
    using Cons.IH [OF tail len, of "cluster_token (height_suffix fmt bl h) [tok, tok']"] pass
    by (subst cluster_loop.simps) (simp add: toks)
qed

lemma paren_depth_ge: "c \<le> paren_depth c s"
  by (induction s arbitrary: c) (auto simp: le_max_iff_disj)

lemma paren_depth_append:
  "paren_depth c (a @ b) = max (paren_depth c a) (paren_depth (paren_level c a) b)"
proof (induction a arbitrary: c)
  case Nil
  show ?case using paren_depth_ge [of c b] by (simp add: max_def)
next
  case (Cons x a)
  show ?case by (simp add: Cons.IH max.assoc)
qed

lemma paren_level_append: "paren_level c (a @ b) = paren_level (paren_level c a) b"
  by (induction a arbitrary: c) auto

lemma paren_free_level: "paren_free s \<Longrightarrow> paren_level c s = c"
  by (induction s arbitrary: c) (auto simp: paren_free_def)

lemma paren_free_depth: "paren_free s \<Longrightarrow> paren_depth c s = c"
  by (induction s arbitrary: c) (auto simp: paren_free_def)

lemma cluster_token_pair:
  "cluster_token s [a, b] = ''('' @ a @ (s @ '','' @ b @ s) @ '')''"
  by (simp add: cluster_token_def)

lemma nest_depth_step:
  assumes "\<forall>c. paren_level c acc = c \<and> paren_depth c acc = c + d"
    and "paren_free tok" and "paren_free s"
  shows "\<forall>c. paren_level c (cluster_token s [acc, tok]) = c \<and>
             paren_depth c (cluster_token s [acc, tok]) = c + Suc d"
proof
  fix c
  define rest where "rest = s @ '','' @ tok @ s"
  have pf: "paren_free rest"
    using assms(2,3) by (auto simp: paren_free_def rest_def)
  have token: "cluster_token s [acc, tok] = CHR ''('' # (acc @ rest) @ '')''"
    by (simp add: cluster_token_def rest_def)
  have lvl: "paren_level (Suc c) (acc @ rest) = Suc c"
    using assms(1) by (simp add: paren_level_append paren_free_level [OF pf])
  have dep: "paren_depth (Suc c) (acc @ rest) = Suc c + d"
    using assms(1) by (simp add: paren_depth_append paren_free_depth [OF pf])
  have "paren_level c (CHR ''('' # (acc @ rest) @ '')'') = c"
    by (simp add: paren_level_append [of _ "acc @ rest"] lvl del: append_assoc)
  moreover have "paren_depth c (CHR ''('' # (acc @ rest) @ '')'') = c + Suc d"
    by (simp add: paren_depth_append [of _ "acc @ rest"] lvl dep del: append_assoc)
  ultimately show "paren_level c (cluster_token s [acc, tok]) = c \<and>
             paren_depth c (cluster_token s [acc, tok]) = c + Suc d"
    by (simp only: token)
qed

lemma nest_left_depth:
  assumes "\<forall>c. paren_level c acc = c \<and> paren_depth c acc = c + d"
    and "\<forall>tok \<in> set toks. paren_free tok" and "\<forall>h \<in> set hs. paren_free (suffix h)"
    and "length toks = length hs"
  shows "\<forall>c. paren_level c (nest_left suffix acc toks hs) = c \<and>
             paren_depth c (nest_left suffix acc toks hs) = c + d + length hs"
  using assms
proof (induction hs arbitrary: acc toks d)
  case Nil
  then show ?case by simp
next
  case (Cons h hs)
  then obtain tok toks' where toks: "toks = tok # toks'" "length toks' = length hs"
    by (cases toks) auto
  have step: "\<forall>c. paren_level c (cluster_token (suffix h) [acc, tok]) = c \<and>
             paren_depth c (cluster_token (suffix h) [acc, tok]) = c + Suc d"
    using nest_depth_step [OF Cons.prems(1), of tok "suffix h"] Cons.prems toks by simp
  show ?case
    using Cons.IH [OF step, of toks'] Cons.prems toks by simp
qed

text \<open>
  \<open>cluster_merges\<close> lists what the loop iterates over: its head is the list of pairs the
  pass on these heights folds over, and its tail lists the passes on the heights that
  pass leaves.
\<close>

lemma cluster_merges_pass:
  assumes "heights \<noteq> []"
    and "cluster_pass fmt branch_lengths orders heights = Inr (orders', heights')"
  shows "merge_runs (height_suffix fmt branch_lengths (Min (set heights)))
           (hd (cluster_merges heights)) orders 0 = Inr orders' \<and>
         tl (cluster_merges heights) = cluster_merges heights'"
proof -
  have unfolded: "cluster_merges heights =
      min_height_runs (Min (set heights)) heights #
      cluster_merges (filter (\<lambda>h. h \<noteq> Min (set heights)) heights)"
    using assms(1) by (subst cluster_merges.simps) simp
  from assms(2) show ?thesis
    unfolding unfolded
    by (auto simp: cluster_pass_def Let_def mask_filter height_suffix_def split: sum.splits)
qed

text \<open>
  C6, as the specification states it: for every planar order with strictly increasing
  heights the nesting depth of the result would equal the number of merges. A token
  may itself be bracketed: on the order \<open>(X),B\<close> with the single height \<open>1\<close> the
  clusterer makes one merge and returns \<open>((X),B);\<close>, whose brackets nest two deep.
\<close>

theorem planar_order_to_newick_increasing_refuted:
  "fromstring_nat (CHR '','') ''1'' = Some [1] \<and>
   sorted_wrt (<) [1 :: nat] \<and>
   length (str_split (CHR '','') ''(X),B'') = length [1 :: nat] + 1 \<and>
   cluster_merges [1 :: nat] = [[(0, 1)]] \<and>
   planar_order_to_newick (fromstring_nat (CHR '','')) float_str ''(X),B'' ''1'' False =
     Inr ''((X),B);'' \<and>
   paren_depth 0 ''((X),B);'' = 2 \<and>
   paren_depth 0 ''((X),B);'' \<noteq> length [1 :: nat]"
  by code_simp

text \<open>
  C6, amended: when the parsed heights are strictly increasing and there is one height
  fewer than tokens, every pass of the loop iterates over the single pair \<open>(0, 1)\<close>,
  one binary merge of the first two tokens, there are as many passes as heights, and
  the result is the left-nested binary tree over the tokens; when no token and no
  branch-length suffix holds a bracket, its bracket nesting is as deep as there are
  heights.
\<close>

theorem planar_order_to_newick_increasing:
  fixes heights :: "'h::linorder list"
  assumes "fromstring height_string = Some heights"
    and "sorted_wrt (<) heights"
    and "str_split (CHR '','') order_string = tok # toks"
    and "length toks = length heights"
  shows "cluster_merges heights = replicate (length heights) [(0, 1)] \<and>
    planar_order_to_newick fromstring fmt order_string height_string branch_lengths =
      Inr (nest_left (height_suffix fmt branch_lengths) tok toks heights @ '';'') \<and>
    ((\<forall>t \<in> set (tok # toks). paren_free t) \<and>
     (\<forall>h \<in> set heights. paren_free (height_suffix fmt branch_lengths h)) \<longrightarrow>
       paren_depth 0 (nest_left (height_suffix fmt branch_lengths) tok toks heights @ '';'') =
         length heights)"
proof (intro conjI impI)
  show "cluster_merges heights = replicate (length heights) [(0, 1)]"
    using assms(2) by (rule cluster_merges_increasing)
  show "planar_order_to_newick fromstring fmt order_string height_string branch_lengths =
      Inr (nest_left (height_suffix fmt branch_lengths) tok toks heights @ '';'')"
    using cluster_loop_increasing [OF assms(2,4), of fmt branch_lengths tok] assms(1,3)
    by (simp add: planar_order_to_newick_def)
  assume free: "(\<forall>t \<in> set (tok # toks). paren_free t) \<and>
     (\<forall>h \<in> set heights. paren_free (height_suffix fmt branch_lengths h))"
  have leaf: "\<forall>c. paren_level c tok = c \<and> paren_depth c tok = c + 0"
    using free by (simp add: paren_free_level paren_free_depth)
  have "\<forall>c. paren_level c (nest_left (height_suffix fmt branch_lengths) tok toks heights) = c \<and>
      paren_depth c (nest_left (height_suffix fmt branch_lengths) tok toks heights) =
        c + 0 + length heights"
    using leaf free assms(4) by (intro nest_left_depth) auto
  then show "paren_depth 0 (nest_left (height_suffix fmt branch_lengths) tok toks heights @ '';'') =
      length heights"
    by (simp add: paren_depth_append)
qed

theorem planar_order_to_newick_increasing_witness:
  "cluster_merges [1, 2, 3 :: nat] = [[(0, 1)], [(0, 1)], [(0, 1)]] \<and>
   planar_order_to_newick (fromstring_nat (CHR '','')) float_str ''A,B,C,D'' ''1,2,3'' True =
     Inr ''(((A:1.0,B:1.0):2.0,C:2.0):3.0,D:3.0);'' \<and>
   paren_depth 0 ''(((A:1.0,B:1.0):2.0,C:2.0):3.0,D:3.0);'' = 3"
proof -
  have parsed: "fromstring_nat (CHR '','') ''1,2,3'' = Some [1, 2, 3]"
    by code_simp
  have incr: "sorted_wrt (<) [1, 2, 3 :: nat]"
    by simp
  have toks: "str_split (CHR '','') ''A,B,C,D'' = ''A'' # [''B'', ''C'', ''D'']"
    by code_simp
  have len: "length [''B'', ''C'', ''D''] = length [1, 2, 3 :: nat]"
    by simp
  have leaves: "\<forall>t \<in> set (''A'' # [''B'', ''C'', ''D'']). paren_free t"
    by (simp add: paren_free_def)
  have suffixes: "\<forall>h \<in> set [1, 2, 3 :: nat]. paren_free (height_suffix float_str True h)"
    by code_simp
  have nested: "nest_left (height_suffix float_str True) ''A'' [''B'', ''C'', ''D''] [1, 2, 3 :: nat] @ '';'' =
      ''(((A:1.0,B:1.0):2.0,C:2.0):3.0,D:3.0);''"
    by code_simp
  show ?thesis
    using planar_order_to_newick_increasing
      [where fromstring = "fromstring_nat (CHR '','')" and height_string = "''1,2,3''"
         and fmt = float_str and branch_lengths = True,
       OF parsed incr toks len] leaves suffixes
    unfolding nested by (simp add: numeral_3_eq_3)
qed

section \<open>The sentinel of the reverse form\<close>

lemma newicks_scan_append:
  "newicks_scan str_of vp (xs @ ys) b s out =
     (case newicks_scan str_of vp xs b s out of
        (out', Inl e) \<Rightarrow> (out', Inl e)
      | (out', Inr (b', s')) \<Rightarrow> newicks_scan str_of vp ys b' s' out')"
proof (induction xs arbitrary: b s out)
  case Nil
  show ?case by simp
next
  case (Cons line xs)
  show ?case
    by (cases line) (simp_all add: Cons.IH Let_def)
qed

lemma newicks_scan_skip:
  "line \<noteq> [] \<Longrightarrow> hd line \<noteq> CHR ''['' \<Longrightarrow>
   newicks_scan str_of vp (line # rest) b s out = newicks_scan str_of vp rest b s out"
  by (cases line) (simp_all add: nwk_line_start_def)

lemma newicks_scan_assert:
  "line \<noteq> [] \<Longrightarrow> hd line = CHR ''['' \<Longrightarrow> \<not> startswith line ''[0]'' \<Longrightarrow>
   newicks_scan str_of vp (line # rest) b s out = (out, Inl AssertionError)"
  by (cases line) (simp_all add: nwk_line_start_def)


text \<open>
  C5: a line of the reverse form that starts with \<open>[\<close> but not with \<open>[0]\<close> raises
  \<open>AssertionError\<close> on the spot: nothing more is written and no later line is read,
  so the conversion ends with the output of the lines read before it. A non-empty
  line that starts with another character is skipped: the state of the scan is
  unchanged, and the conversion is the same with the line removed.
\<close>

theorem newicks_to_nexus_sentinel:
  "(line \<noteq> [] \<and> hd line = CHR ''['' \<and> \<not> startswith line ''[0]'' \<longrightarrow>
      newicks_scan str_of variant_positions (line # rest) buffered_tree site out =
        (out, Inl AssertionError) \<and>
      (\<forall>out' b s.
         newicks_scan str_of variant_positions (rev later) [] 0
           [nexus_header, translate_statement num_tips] = (out', Inr (b, s)) \<longrightarrow>
         newicks_to_nexus str_of (earlier @ line # later) variant_positions seq_length num_tips =
           (out', Some AssertionError))) \<and>
   (line \<noteq> [] \<and> hd line \<noteq> CHR ''['' \<longrightarrow>
      newicks_scan str_of variant_positions (line # rest) buffered_tree site out =
        newicks_scan str_of variant_positions rest buffered_tree site out \<and>
      newicks_to_nexus str_of (earlier @ line # later) variant_positions seq_length num_tips =
        newicks_to_nexus str_of (earlier @ later) variant_positions seq_length num_tips)"
proof (intro conjI impI allI)
  assume bad: "line \<noteq> [] \<and> hd line = CHR ''['' \<and> \<not> startswith line ''[0]''"
  then show "newicks_scan str_of variant_positions (line # rest) buffered_tree site out =
        (out, Inl AssertionError)"
    by (intro newicks_scan_assert) simp_all
  fix out' b s
  assume scan: "newicks_scan str_of variant_positions (rev later) [] 0
           [nexus_header, translate_statement num_tips] = (out', Inr (b, s))"
  have "newicks_scan str_of variant_positions (rev later @ line # rev earlier) [] 0
      [nexus_header, translate_statement num_tips] = (out', Inl AssertionError)"
    using bad by (simp add: newicks_scan_append scan newicks_scan_assert del: newicks_scan.simps)
  then show "newicks_to_nexus str_of (earlier @ line # later) variant_positions seq_length num_tips =
           (out', Some AssertionError)"
    by (simp add: newicks_to_nexus_def)
next
  assume skip: "line \<noteq> [] \<and> hd line \<noteq> CHR ''[''"
  then show "newicks_scan str_of variant_positions (line # rest) buffered_tree site out =
        newicks_scan str_of variant_positions rest buffered_tree site out"
    by (intro newicks_scan_skip) simp_all
  have "newicks_scan str_of variant_positions (rev later @ line # rev earlier) [] 0
      [nexus_header, translate_statement num_tips] =
    newicks_scan str_of variant_positions (rev later @ rev earlier) [] 0
      [nexus_header, translate_statement num_tips]"
    using skip
    by (auto simp: newicks_scan_append newicks_scan_skip simp del: newicks_scan.simps
        split: prod.splits sum.splits)
  then show "newicks_to_nexus str_of (earlier @ line # later) variant_positions seq_length num_tips =
        newicks_to_nexus str_of (earlier @ later) variant_positions seq_length num_tips"
    by (simp add: newicks_to_nexus_def)
qed

theorem newicks_to_nexus_sentinel_witness:
  "newicks_to_nexus show_nat [''[0](1,2);'', ''[1](1,2);'', ''[0](2,1);''] [10, 20] 100 2 =
     ([nexus_header, translate_statement 2], Some AssertionError) \<and>
   newicks_to_nexus show_nat [''[0](1,2);'', ''# note'', ''[0](2,1);''] [10, 20] 100 2 =
     newicks_to_nexus show_nat [''[0](1,2);'', ''[0](2,1);''] [10, 20] 100 2"
proof
  have bad: "''[1](1,2);'' \<noteq> [] \<and> hd ''[1](1,2);'' = CHR ''['' \<and> \<not> startswith ''[1](1,2);'' ''[0]''"
    by (simp add: startswith_def)
  have scan: "newicks_scan show_nat [10, 20] (rev [''[0](2,1);'']) [] 0
      [nexus_header, translate_statement 2] = ([nexus_header, translate_statement 2], Inr (''(2,1);'', 1))"
    by (simp add: nwk_line_start_def startswith_def)
  show "newicks_to_nexus show_nat [''[0](1,2);'', ''[1](1,2);'', ''[0](2,1);''] [10, 20] 100 2 =
     ([nexus_header, translate_statement 2], Some AssertionError)"
    using newicks_to_nexus_sentinel [of "''[1](1,2);''" show_nat "[10, 20]" "[]" "[]" 0 "[]"
        "[''[0](2,1);'']" 2 "[''[0](1,2);'']" 100] bad scan
    by simp
  have skip: "''# note'' \<noteq> [] \<and> hd ''# note'' \<noteq> CHR ''[''"
    by simp
  show "newicks_to_nexus show_nat [''[0](1,2);'', ''# note'', ''[0](2,1);''] [10, 20] 100 2 =
     newicks_to_nexus show_nat [''[0](1,2);'', ''[0](2,1);''] [10, 20] 100 2"
    using newicks_to_nexus_sentinel [of "''# note''" show_nat "[10, 20]" "[]" "[]" 0 "[]"
        "[''[0](2,1);'']" 2 "[''[0](1,2);'']" 100] skip
    by simp
qed

section \<open>Runs of equal records\<close>

lemma group_eq_Cons:
  "\<exists>g gs. group_eq (x # xs) = (x # g) # gs"
  by (cases "group_eq xs") auto

lemma group_eq_same:
  "\<exists>g gs. group_eq (x # xs) = (x # g) # gs \<and> group_eq (x # x # xs) = (x # x # g) # gs"
  using group_eq_Cons [of x xs] by auto

lemma group_eq_differ:
  "x \<noteq> y \<Longrightarrow> group_eq (x # y # ys) = [x] # group_eq (y # ys)"
  using group_eq_Cons [of y ys] by auto

lemma concat_group_eq: "concat (group_eq xs) = xs"
proof (induction xs)
  case Nil
  show ?case by simp
next
  case (Cons x xs)
  then show ?case by (cases "group_eq xs") auto
qed

lemma sum_length_group_eq: "sum_list (map length (group_eq xs)) = length xs"
  using concat_group_eq [of xs] length_concat [of "group_eq xs"] by simp

lemma last_run_statements:
  "gs \<noteq> [] \<Longrightarrow>
   run_statements tree str_of vp L i gs =
     butlast (run_statements tree str_of vp L i gs) @
     [tree_statement (str_of L) (tree (hd (last gs)))]"
proof (induction gs arbitrary: i)
  case Nil
  then show ?case by simp
next
  case (Cons g gs)
  show ?case
  proof (cases "gs = []")
    case True
    then show ?thesis by simp
  next
    case False
    then have ne: "run_statements tree str_of vp L (i + length g) gs \<noteq> []"
      by (cases gs) auto
    show ?thesis
      using Cons.IH [OF False, of "i + length g"] False ne by simp
  qed
qed

lemma hd_last_group_eq: "hd (last (group_eq (x # xs))) = last (x # xs)"
proof (induction xs arbitrary: x)
  case Nil
  show ?case by simp
next
  case (Cons y ys)
  show ?case
  proof (cases "x = y")
    case True
    obtain g gs where g: "group_eq (y # ys) = (y # g) # gs" "group_eq (y # y # ys) = (y # y # g) # gs"
      using group_eq_same [of y ys] by blast
    show ?thesis
      using Cons.IH [of y] g True by (cases gs) auto
  next
    case False
    obtain g gs where g: "group_eq (y # ys) = (y # g) # gs"
      using group_eq_Cons [of y ys] by blast
    show ?thesis
      using Cons.IH [of y] g False by (simp add: group_eq_differ del: group_eq.simps)
  qed
qed

lemma merge_scan_groups:
  assumes "\<forall>r \<in> set (b # rs). \<not> unset r \<and> render r = Inr (tree r)"
    and "j + length rs < length vp"
  shows "merge_scan unset render str_of vp rs b (Suc j) out =
    (out @ butlast (run_statements tree str_of vp L j (group_eq (b # rs))),
     Inr (last (b # rs), Suc j + length rs))"
  using assms
proof (induction rs arbitrary: b j out)
  case Nil
  show ?case by simp
next
  case (Cons r rs)
  have ok: "\<forall>r' \<in> set (r # rs). \<not> unset r' \<and> render r' = Inr (tree r')"
    using Cons.prems(1) by simp
  have b: "\<not> unset b" "render b = Inr (tree b)"
    using Cons.prems(1) by simp_all
  have bound: "Suc j + length rs < length vp" "Suc j < length vp"
    using Cons.prems(2) by simp_all
  show ?case
  proof (cases "b = r")
    case True
    obtain g gs where g: "group_eq (r # rs) = (r # g) # gs" "group_eq (r # r # rs) = (r # r # g) # gs"
      using group_eq_same [of r rs] by blast
    have same: "run_statements tree str_of vp L j (group_eq (r # r # rs)) =
        run_statements tree str_of vp L (Suc j) (group_eq (r # rs))"
      unfolding g by simp
    show ?thesis
      using Cons.IH [OF ok bound(1), of out] True
      by (simp add: same del: group_eq.simps)
  next
    case False
    obtain g gs where g: "group_eq (r # rs) = (r # g) # gs"
      using group_eq_Cons [of r rs] by blast
    have flush: "run_statements tree str_of vp L j (group_eq (b # r # rs)) =
        tree_statement (str_of (vp ! Suc j)) (tree b) #
        run_statements tree str_of vp L (Suc j) (group_eq (r # rs))"
      unfolding group_eq_differ [OF False] g by simp
    have ne: "run_statements tree str_of vp L (Suc j) (group_eq (r # rs)) \<noteq> []"
      unfolding g by simp
    show ?thesis
      using Cons.IH [OF ok bound(1), of "out @ [tree_statement (str_of (vp ! Suc j)) (tree b)]"]
        False b bound(2) ne
      by (simp add: flush del: group_eq.simps)
  qed
qed

lemma merge_scan_start:
  assumes "unset b" and "\<forall>r \<in> set rs. \<not> unset r \<and> render r = Inr (tree r)"
    and "rs \<noteq> []" and "length rs \<le> length vp"
  shows "merge_scan unset render str_of vp rs b 0 out =
    (out @ butlast (run_statements tree str_of vp L 0 (group_eq rs)), Inr (last rs, length rs))"
proof -
  obtain r rs' where rs: "rs = r # rs'"
    using assms(3) by (cases rs) auto
  have ne: "b \<noteq> r"
    using assms(1,2) rs by auto
  have bound: "0 + length rs' < length vp"
    using assms(4) rs by simp
  show ?thesis
    using merge_scan_groups [of r rs' unset render tree 0 vp str_of out L] assms(1,2) ne bound
    by (simp add: rs del: group_eq.simps)
qed

lemma merge_scan_site:
  "merge_scan unset render str_of vp rs b s out = (out', Inr (b', s')) \<Longrightarrow> s' = s + length rs"
proof (induction rs arbitrary: b s out)
  case Nil
  then show ?case by simp
next
  case (Cons r rs)
  from Cons.prems show ?case
    by (auto split: if_splits sum.splits dest: Cons.IH)
qed

lemma rstrip_digit: "isdigit c \<Longrightarrow> rstrip (c # l) \<noteq> []"
proof -
  assume "isdigit c"
  then have "\<not> isspace c"
    by (auto simp: isdigit_def isspace_def)
  then show ?thesis
    by (simp add: rstrip_def dropWhile_append)
qed

lemma planar_scan_records:
  "planar_framed lines \<Longrightarrow>
   planar_scan fs fmt str_of vp lines b h s out =
     (case merge_scan planar_unset (\<lambda>r. planar_order_to_newick fs fmt (fst r) (snd r) True)
             str_of vp (planar_records lines) b s out of
        (out', Inl e) \<Rightarrow> (out', Inl e)
      | (out', Inr (b', s')) \<Rightarrow>
          (out', Inr (b', (if planar_records lines = [] then h else snd (last (planar_records lines))), s')))"
proof (induction lines arbitrary: b h s out rule: planar_records.induct)
  case 1
  show ?case by simp
next
  case (2 line)
  then show ?case by (cases line) auto
next
  case (3 line height_line rest)
  show ?case
  proof (cases "isdigit (hd line)")
    case False
    with "3.prems" have "planar_framed (height_line # rest)" by simp
    from "3.IH"(2) [OF _ this] False "3.prems" show ?thesis
      by (cases line) auto
  next
    case True
    with "3.prems" have framed: "planar_framed rest" and ne: "line \<noteq> []" by simp_all
    have IH: "planar_scan fs fmt str_of vp rest b' h' s' out' =
     (case merge_scan planar_unset (\<lambda>r. planar_order_to_newick fs fmt (fst r) (snd r) True)
             str_of vp (planar_records rest) b' s' out' of
        (out'', Inl e) \<Rightarrow> (out'', Inl e)
      | (out'', Inr (b'', s'')) \<Rightarrow>
          (out'', Inr (b'', (if planar_records rest = [] then h' else snd (last (planar_records rest))), s'')))"
      for b' h' s' out'
      using "3.IH"(1) [OF _ framed] True ne by simp
    show ?thesis
      using True ne
      by (cases line) (auto simp: IH Let_def split: sum.splits prod.splits)
  qed
qed

lemma planar_scan_site:
  "planar_scan fs fmt str_of vp lines b h s out = (out', Inr (b', h', s')) \<Longrightarrow>
   s' = s + length (planar_records lines)"
proof (induction lines arbitrary: b h s out rule: planar_records.induct)
  case 1
  then show ?case by simp
next
  case (2 line)
  then show ?case by (cases line) (auto split: if_splits)
next
  case (3 line height_line rest)
  show ?case
  proof (cases "line \<noteq> [] \<and> isdigit (hd line)")
    case False
    with "3.prems" have "planar_scan fs fmt str_of vp (height_line # rest) b h s out = (out', Inr (b', h', s'))"
      by (cases line) (auto split: if_splits)
    from "3.IH"(2) [OF False this] False show ?thesis by auto
  next
    case True
    from "3.prems" True show ?thesis
      by (cases line)
        (auto simp: Let_def split: if_splits sum.splits dest: "3.IH"(1) [OF True])
  qed
qed

lemma planar_scan_framed:
  "planar_scan fs fmt str_of vp lines b h s out = (out', Inr st) \<Longrightarrow> planar_framed lines"
proof (induction lines arbitrary: b h s out rule: planar_records.induct)
  case 1
  then show ?case by simp
next
  case (2 line)
  then show ?case by (cases line) (auto split: if_splits)
next
  case (3 line height_line rest)
  show ?case
  proof (cases "line \<noteq> [] \<and> isdigit (hd line)")
    case False
    with "3.prems" have "planar_scan fs fmt str_of vp (height_line # rest) b h s out = (out', Inr st)"
      by (cases line) (auto split: if_splits)
    from "3.IH"(2) [OF False this] False "3.prems" show ?thesis by (cases line) auto
  next
    case True
    from "3.prems" True show ?thesis
      by (cases line)
        (auto simp: Let_def split: if_splits sum.splits dest: "3.IH"(1) [OF True])
  qed
qed

lemma merge_runs_error: "merge_runs nwk runs orders removed = Inl e \<Longrightarrow> e = IndexError"
proof (induction runs arbitrary: orders removed)
  case Nil
  then show ?case by simp
next
  case (Cons run runs)
  obtain start0 end0 where "run = (start0, end0)" by (cases run)
  with Cons.prems show ?case
    by (auto simp: merge_runs.simps Let_def split: if_splits dest: Cons.IH)
qed

lemma cluster_pass_error: "cluster_pass fmt bl orders heights = Inl e \<Longrightarrow> e = IndexError"
  by (auto simp: cluster_pass_def Let_def split: sum.splits dest: merge_runs_error)

lemma cluster_loop_error: "cluster_loop fmt bl orders heights = Inl e \<Longrightarrow> e = IndexError"
proof (induction fmt bl orders heights rule: cluster_loop.induct)
  case (1 fmt bl orders heights)
  show ?case
  proof (cases "cluster_pass fmt bl orders heights")
    case (Inl e')
    with "1.prems" show ?thesis
      by (subst (asm) cluster_loop.simps) (auto split: if_splits dest: cluster_pass_error)
  next
    case (Inr st)
    obtain orders' heights' where st: "st = (orders', heights')" by (cases st)
    from "1.prems" have ne: "length heights \<noteq> 0"
      by (subst (asm) cluster_loop.simps) (auto split: if_splits)
    from "1.prems" Inr st ne have "cluster_loop fmt bl orders' heights' = Inl e"
      by (subst (asm) cluster_loop.simps) simp
    with "1.IH" [OF ne Inr st [symmetric]] show ?thesis .
  qed
qed

lemma planar_order_to_newick_error:
  "planar_order_to_newick fs fmt order_string height_string bl = Inl e \<Longrightarrow> \<not> is_ValueError e"
  by (auto simp: planar_order_to_newick_def Let_def split: option.splits sum.splits list.splits
      dest: cluster_loop_error)

lemma planar_scan_error:
  "planar_scan fs fmt str_of vp lines b h s out = (out', Inl e) \<Longrightarrow> \<not> is_ValueError e"
proof (induction lines arbitrary: b h s out rule: planar_records.induct)
  case 1
  then show ?case by simp
next
  case (2 line)
  then show ?case by (cases line) (auto split: if_splits)
next
  case (3 line height_line rest)
  show ?case
  proof (cases "line \<noteq> [] \<and> isdigit (hd line)")
    case False
    show ?thesis
    proof (cases line)
      case Nil
      with "3.prems" show ?thesis by auto
    next
      case (Cons c l)
      with False "3.prems" have "planar_scan fs fmt str_of vp (height_line # rest) b h s out = (out', Inl e)"
        by auto
      from "3.IH"(2) [OF False this] show ?thesis .
    qed
  next
    case True
    from "3.prems" True show ?thesis
      by (cases line)
        (auto simp: Let_def split: if_splits sum.splits
          dest: "3.IH"(1) [OF True] planar_order_to_newick_error)
  qed
qed

lemma newicks_scan_error:
  "newicks_scan str_of vp lines b s out = (out', Inl e) \<Longrightarrow> \<not> is_ValueError e"
proof (induction lines arbitrary: b s out)
  case Nil
  then show ?case by simp
next
  case (Cons line lines)
  from Cons.prems show ?case
    by (cases line) (auto simp: Let_def split: if_splits dest: Cons.IH)
qed

lemma newicks_scan_site:
  "newicks_scan str_of vp lines b s out = (out', Inr (b', s')) \<Longrightarrow>
   s' = s + length (filter (\<lambda>line. line \<noteq> [] \<and> hd line = hd nwk_line_start) lines)"
proof (induction lines arbitrary: b s out)
  case Nil
  then show ?case by simp
next
  case (Cons line lines)
  from Cons.prems show ?case
    by (cases line) (auto simp: Let_def split: if_splits dest: Cons.IH)
qed

lemma newicks_scan_records:
  "list_all (\<lambda>line. line \<noteq> [] \<and> (if hd line = hd nwk_line_start then startswith line nwk_line_start else True)) lines \<Longrightarrow>
   newicks_scan str_of vp lines b s out =
     merge_scan (\<lambda>t. t = []) Inr str_of vp
       (map (drop (length nwk_line_start)) (filter (\<lambda>line. line \<noteq> [] \<and> hd line = hd nwk_line_start) lines)) b s out"
proof (induction lines arbitrary: b s out)
  case Nil
  show ?case by simp
next
  case (Cons line lines)
  then show ?case
    by (cases line) (auto simp: Let_def)
qed

lemma merge_scan_completes:
  assumes "\<forall>r \<in> set (b # rs). unset r \<or> (\<exists>t. render r = Inr t)"
    and "s + length rs \<le> length vp"
  shows "\<exists>out' b'. merge_scan unset render str_of vp rs b s out = (out', Inr (b', s + length rs))"
  using assms
proof (induction rs arbitrary: b s out)
  case Nil
  show ?case by simp
next
  case (Cons r rs)
  have ok: "\<forall>r' \<in> set (r # rs). unset r' \<or> (\<exists>t. render r' = Inr t)"
    using Cons.prems(1) by simp
  have bound: "Suc s + length rs \<le> length vp" "s < length vp"
    using Cons.prems(2) by simp_all
  have IHb: "\<exists>out' b'. merge_scan unset render str_of vp rs b (Suc s) out = (out', Inr (b', Suc s + length rs))"
    for out
    using Cons.IH [of b "Suc s" out] Cons.prems(1) bound(1) by simp
  have IHr: "\<exists>out' b'. merge_scan unset render str_of vp rs r (Suc s) out = (out', Inr (b', Suc s + length rs))"
    for out
    using Cons.IH [OF ok bound(1)] by simp
  show ?case
    using IHb IHr Cons.prems(1) bound(2)
    by (auto split: sum.splits)
qed

lemma merge_scan_error_lookup:
  assumes "\<forall>r \<in> set (b # rs). unset r \<or> (\<exists>t. render r = Inr t)"
    and "merge_scan unset render str_of vp rs b s out = (out', Inl e)"
  shows "e = IndexError"
  using assms
proof (induction rs arbitrary: b s out)
  case Nil
  then show ?case by simp
next
  case (Cons r rs)
  have ok: "\<forall>r' \<in> set (r # rs). unset r' \<or> (\<exists>t. render r' = Inr t)"
    using Cons.prems(1) by simp
  have okb: "\<forall>r' \<in> set (b # rs). unset r' \<or> (\<exists>t. render r' = Inr t)"
    using Cons.prems(1) by simp
  from Cons.prems(2) Cons.prems(1) show ?case
    by (auto split: if_splits sum.splits dest: Cons.IH [OF ok] Cons.IH [OF okb])
qed

lemma planar_records_order: "r \<in> set (planar_records lines) \<Longrightarrow> fst r \<noteq> []"
proof (induction lines rule: planar_records.induct)
  case 1
  then show ?case by simp
next
  case (2 line)
  then show ?case by simp
next
  case (3 line height_line rest)
  then show ?case
    by (cases line) (auto simp: rstrip_digit split: if_splits)
qed

lemma planar_render_ok:
  assumes "planar_well_formed fs lines" and "r \<in> set (planar_records lines)"
  shows "planar_render fs fmt r = Inr (planar_tree fs fmt r)"
proof -
  from assms obtain heights where h: "fs (snd r) = Some heights"
    and len: "length (str_split (CHR '','') (fst r)) = length heights + 1"
    by (auto simp: planar_well_formed_def list_all_iff split: option.splits)
  obtain tok where "cluster_loop fmt True (str_split (CHR '','') (fst r)) heights = Inr [tok]"
    using cluster_loop_single [OF len] by blast
  then show ?thesis
    by (simp add: planar_order_to_newick_def planar_tree_def h)
qed

lemma planar_scan_complete:
  assumes wf: "planar_well_formed fs lines"
    and le: "length (planar_records lines) \<le> length vp"
  shows "planar_scan fs fmt str_of vp lines ([], []) [] 0 out =
    (out @ butlast (run_statements (planar_tree fs fmt) str_of vp L 0 (group_eq (planar_records lines))),
     Inr (if planar_records lines = [] then ([], []) else last (planar_records lines),
          if planar_records lines = [] then [] else snd (last (planar_records lines)),
          length (planar_records lines)))"
proof -
  have framed: "planar_framed lines"
    using wf by (simp add: planar_well_formed_def)
  show ?thesis
  proof (cases "planar_records lines = []")
    case True
    then show ?thesis
      by (simp add: planar_scan_records [OF framed])
  next
    case False
    have ok: "\<forall>r \<in> set (planar_records lines). \<not> planar_unset r \<and>
        planar_render fs fmt r = Inr (planar_tree fs fmt r)"
      using planar_records_order planar_render_ok [OF wf] by blast
    have "merge_scan planar_unset (planar_render fs fmt) str_of vp (planar_records lines) ([], []) 0 out =
      (out @ butlast (run_statements (planar_tree fs fmt) str_of vp L 0 (group_eq (planar_records lines))),
       Inr (last (planar_records lines), length (planar_records lines)))"
      by (rule merge_scan_start [OF _ ok False le]) simp
    then show ?thesis
      using False by (simp add: planar_scan_records [OF framed])
  qed
qed

lemma planar_accounting_iff:
  "(snd (planar_to_nexus fs fmt str_of lines vp L) = Some (ValueError msg)) =
   ((\<exists>out st. planar_scan fs fmt str_of vp lines ([], []) [] 0 [nexus_header] = (out, Inr st)) \<and>
    length (planar_records lines) \<noteq> length vp \<and>
    msg = accounting_message (length (planar_records lines)) (length vp))"
proof (cases "planar_scan fs fmt str_of vp lines ([], []) [] 0 [nexus_header]")
  case (Pair out res)
  show ?thesis
  proof (cases res)
    case (Inl e)
    have "\<not> is_ValueError e"
      using planar_scan_error Pair Inl by blast
    then have "e \<noteq> ValueError msg" by auto
    then show ?thesis
      using Pair Inl by (simp add: planar_to_nexus_def)
  next
    case (Inr st)
    obtain b h s where st: "st = (b, h, s)" by (cases st)
    have s: "s = length (planar_records lines)"
      using planar_scan_site [of fs fmt str_of vp lines "([], [])" "[]" 0 "[nexus_header]" out b h s]
        Pair Inr st by simp
    have final: "planar_order_to_newick fs fmt (fst b) (snd b) True = Inl e \<Longrightarrow> e \<noteq> ValueError msg" for e
      using planar_order_to_newick_error [of fs fmt "fst b" "snd b" True e] by auto
    show ?thesis
      using Pair Inr st s final
      by (auto simp: planar_to_nexus_def split: sum.splits)
  qed
qed

lemma planar_mismatch_fatal:
  "length (planar_records lines) \<noteq> length vp \<Longrightarrow>
   snd (planar_to_nexus fs fmt str_of lines vp L) \<noteq> None"
proof (cases "planar_scan fs fmt str_of vp lines ([], []) [] 0 [nexus_header]")
  case (Pair out res)
  assume ne: "length (planar_records lines) \<noteq> length vp"
  show ?thesis
  proof (cases res)
    case (Inl e)
    then show ?thesis using Pair by (simp add: planar_to_nexus_def)
  next
    case (Inr st)
    obtain b h s where st: "st = (b, h, s)" by (cases st)
    have "s = length (planar_records lines)"
      using planar_scan_site [of fs fmt str_of vp lines "([], [])" "[]" 0 "[nexus_header]" out b h s]
        Pair Inr st by simp
    then show ?thesis
      using Pair Inr st ne by (simp add: planar_to_nexus_def)
  qed
qed

lemma planar_fewer_records:
  assumes wf: "planar_well_formed fs lines"
    and lt: "length (planar_records lines) < length vp"
  shows "snd (planar_to_nexus fs fmt str_of lines vp L) =
    Some (ValueError (accounting_message (length (planar_records lines)) (length vp)))"
proof -
  have le: "length (planar_records lines) \<le> length vp"
    using lt by simp
  show ?thesis
    unfolding planar_to_nexus_def planar_scan_complete [OF wf le, of fmt str_of _ L]
    using lt by simp
qed

lemma planar_counts_agree:
  assumes wf: "planar_well_formed fs lines"
    and eq: "length (planar_records lines) = length vp"
  shows "snd (planar_to_nexus fs fmt str_of lines vp L) = None"
    and "planar_records lines = [] \<or> snd (last (planar_records lines)) \<noteq> [] \<Longrightarrow>
      fst (planar_to_nexus fs fmt str_of lines vp L) =
        nexus_header #
        run_statements (planar_tree fs fmt) str_of vp L 0 (group_eq (planar_records lines)) @
        [nexus_end]"
proof -
  let ?rs = "planar_records lines"
  let ?X = "run_statements (planar_tree fs fmt) str_of vp L 0 (group_eq ?rs)"
  have le: "length ?rs \<le> length vp"
    using eq by simp
  note scan = planar_scan_complete [OF wf le, of fmt str_of "[nexus_header]" L]
  have render: "?rs \<noteq> [] \<Longrightarrow> planar_render fs fmt (last ?rs) = Inr (planar_tree fs fmt (last ?rs))"
    using planar_render_ok [OF wf, of "last ?rs"] by simp
  show "snd (planar_to_nexus fs fmt str_of lines vp L) = None"
    unfolding planar_to_nexus_def scan using eq render by simp
  assume final: "?rs = [] \<or> snd (last ?rs) \<noteq> []"
  show "fst (planar_to_nexus fs fmt str_of lines vp L) = nexus_header # ?X @ [nexus_end]"
  proof (cases "?rs = []")
    case True
    then show ?thesis
      unfolding planar_to_nexus_def scan using eq by simp
  next
    case False
    then obtain r rs' where rs: "?rs = r # rs'"
      by (cases ?rs) auto
    have gs: "group_eq ?rs \<noteq> []"
      using group_eq_Cons [of r rs'] rs by auto
    have "hd (last (group_eq ?rs)) = last ?rs"
      using hd_last_group_eq [of r rs'] rs by simp
    then have X: "?X = butlast ?X @ [tree_statement (str_of L) (planar_tree fs fmt (last ?rs))]"
      using last_run_statements [OF gs, of "planar_tree fs fmt" str_of vp L 0] by simp
    have "fst (planar_to_nexus fs fmt str_of lines vp L) =
        nexus_header # (butlast ?X @ [tree_statement (str_of L) (planar_tree fs fmt (last ?rs))]) @ [nexus_end]"
      unfolding planar_to_nexus_def scan using eq False final render by simp
    then show ?thesis
      using X by simp
  qed
qed

lemma newicks_scan_merge:
  "newick_framed newicks_file \<Longrightarrow>
   newicks_scan str_of vp (rev newicks_file) b s out =
     merge_scan (\<lambda>t. t = []) Inr str_of vp (newick_records newicks_file) b s out"
  unfolding newick_records_def
  by (rule newicks_scan_records) (simp add: newick_framed_def)

lemma newicks_scan_count:
  "newicks_scan str_of vp (rev newicks_file) b s out = (out', Inr (b', s')) \<Longrightarrow>
   s' = s + length (newick_records newicks_file)"
  using newicks_scan_site [of str_of vp "rev newicks_file" b s out out' b' s']
  by (simp add: newick_records_def)

lemma newicks_accounting_iff:
  "(snd (newicks_to_nexus str_of newicks_file vp L n) = Some (ValueError msg)) =
   ((\<exists>out st. newicks_scan str_of vp (rev newicks_file) [] 0
        [nexus_header, translate_statement n] = (out, Inr st)) \<and>
    length (newick_records newicks_file) \<noteq> length vp \<and>
    msg = accounting_message (length (newick_records newicks_file)) (length vp))"
proof (cases "newicks_scan str_of vp (rev newicks_file) [] 0 [nexus_header, translate_statement n]")
  case (Pair out res)
  show ?thesis
  proof (cases res)
    case (Inl e)
    have "\<not> is_ValueError e"
      using newicks_scan_error Pair Inl by blast
    then have "e \<noteq> ValueError msg" by auto
    then show ?thesis
      using Pair Inl by (simp add: newicks_to_nexus_def)
  next
    case (Inr st)
    obtain b s where st: "st = (b, s)" by (cases st)
    have "s = length (newick_records newicks_file)"
      using newicks_scan_count [of str_of vp newicks_file "[]" 0 _ out b s] Pair Inr st by simp
    then show ?thesis
      using Pair Inr st by (auto simp: newicks_to_nexus_def)
  qed
qed

lemma newicks_mismatch_fatal:
  "length (newick_records newicks_file) \<noteq> length vp \<Longrightarrow>
   snd (newicks_to_nexus str_of newicks_file vp L n) \<noteq> None"
proof (cases "newicks_scan str_of vp (rev newicks_file) [] 0 [nexus_header, translate_statement n]")
  case (Pair out res)
  assume ne: "length (newick_records newicks_file) \<noteq> length vp"
  show ?thesis
  proof (cases res)
    case (Inl e)
    then show ?thesis using Pair by (simp add: newicks_to_nexus_def)
  next
    case (Inr st)
    obtain b s where st: "st = (b, s)" by (cases st)
    have "s = length (newick_records newicks_file)"
      using newicks_scan_count [of str_of vp newicks_file "[]" 0 _ out b s] Pair Inr st by simp
    then show ?thesis
      using Pair Inr st ne by (simp add: newicks_to_nexus_def)
  qed
qed

lemma newicks_renderable:
  "\<forall>r \<in> set (b # rs). (\<lambda>t. t = []) r \<or> (\<exists>t. (Inr :: string \<Rightarrow> error + string) r = Inr t)"
  by simp

lemma newicks_no_more_records:
  assumes framed: "newick_framed newicks_file"
    and le: "length (newick_records newicks_file) \<le> length vp"
  shows "\<exists>out b. newicks_scan str_of vp (rev newicks_file) [] 0 out0 =
    (out, Inr (b, length (newick_records newicks_file)))"
  using merge_scan_completes [where unset = "\<lambda>t. t = []" and render = Inr and b = "[]"
      and rs = "newick_records newicks_file" and s = 0 and vp = vp and str_of = str_of and out = out0,
      OF newicks_renderable] le
  by (simp add: newicks_scan_merge [OF framed])

lemma newicks_fewer_records:
  assumes framed: "newick_framed newicks_file"
    and lt: "length (newick_records newicks_file) < length vp"
  shows "snd (newicks_to_nexus str_of newicks_file vp L n) =
    Some (ValueError (accounting_message (length (newick_records newicks_file)) (length vp)))"
proof -
  obtain out b where "newicks_scan str_of vp (rev newicks_file) [] 0 [nexus_header, translate_statement n] =
      (out, Inr (b, length (newick_records newicks_file)))"
    using newicks_no_more_records [OF framed, of vp str_of] lt by (metis less_imp_le)
  then show ?thesis
    using lt by (simp add: newicks_to_nexus_def)
qed

lemma newicks_counts_agree:
  assumes framed: "newick_framed newicks_file"
    and eq: "length (newick_records newicks_file) = length vp"
  shows "snd (newicks_to_nexus str_of newicks_file vp L n) = None"
    and "list_all (\<lambda>t. t \<noteq> []) (newick_records newicks_file) \<Longrightarrow>
      fst (newicks_to_nexus str_of newicks_file vp L n) =
        nexus_header # translate_statement n #
        run_statements (\<lambda>t. t) str_of vp L 0 (group_eq (newick_records newicks_file)) @
        [nexus_end]"
proof -
  let ?rs = "newick_records newicks_file"
  let ?X = "run_statements (\<lambda>t. t) str_of vp L 0 (group_eq ?rs)"
  let ?out0 = "[nexus_header, translate_statement n]"
  obtain out b where "newicks_scan str_of vp (rev newicks_file) [] 0 ?out0 = (out, Inr (b, length ?rs))"
    using newicks_no_more_records [OF framed, of vp str_of] eq by (metis order_refl)
  then show "snd (newicks_to_nexus str_of newicks_file vp L n) = None"
    using eq by (simp add: newicks_to_nexus_def)
  assume trees: "list_all (\<lambda>t. t \<noteq> []) ?rs"
  show "fst (newicks_to_nexus str_of newicks_file vp L n) =
      nexus_header # translate_statement n # ?X @ [nexus_end]"
  proof (cases "?rs = []")
    case True
    then have "newicks_scan str_of vp (rev newicks_file) [] 0 ?out0 = (?out0, Inr ([], 0))"
      by (simp add: newicks_scan_merge [OF framed])
    then show ?thesis
      using True eq by (simp add: newicks_to_nexus_def)
  next
    case False
    then obtain r rs' where rs: "?rs = r # rs'"
      by (cases ?rs) auto
    have ok: "\<forall>r \<in> set ?rs. \<not> (\<lambda>t. t = []) r \<and> (Inr :: string \<Rightarrow> error + string) r = Inr ((\<lambda>t. t) r)"
      using trees by (simp add: list_all_iff)
    have le: "length ?rs \<le> length vp"
      using eq by simp
    have scan: "newicks_scan str_of vp (rev newicks_file) [] 0 ?out0 =
        (?out0 @ butlast ?X, Inr (last ?rs, length ?rs))"
      unfolding newicks_scan_merge [OF framed]
      by (rule merge_scan_start [OF _ ok False le]) simp
    have last_ne: "last ?rs \<noteq> []"
      using trees False by (simp add: list_all_iff)
    have gs: "group_eq ?rs \<noteq> []"
      using group_eq_Cons [of r rs'] rs by auto
    have "hd (last (group_eq ?rs)) = last ?rs"
      using hd_last_group_eq [of r rs'] rs by simp
    then have X: "?X = butlast ?X @ [tree_statement (str_of L) (last ?rs)]"
      using last_run_statements [OF gs, of "\<lambda>t. t" str_of vp L 0] by simp
    have "fst (newicks_to_nexus str_of newicks_file vp L n) =
        nexus_header # translate_statement n # (butlast ?X @ [tree_statement (str_of L) (last ?rs)]) @ [nexus_end]"
      unfolding newicks_to_nexus_def scan using eq last_ne by simp
    then show ?thesis
      using X by simp
  qed
qed

section \<open>The accounting check\<close>

lemma merge_scan_flush_beyond:
  assumes "\<forall>r \<in> set (b # rs). unset r \<or> (\<exists>t. render r = Inr t)"
  shows "(flush_beyond unset (length vp) s b rs \<longrightarrow>
            (\<exists>out'. merge_scan unset render str_of vp rs b s out = (out', Inl IndexError))) \<and>
         (\<not> flush_beyond unset (length vp) s b rs \<longrightarrow>
            (\<exists>out' b'. merge_scan unset render str_of vp rs b s out = (out', Inr (b', s + length rs))))"
  using assms
proof (induction rs arbitrary: b s out)
  case Nil
  show ?case by simp
next
  case (Cons r rs)
  have ok: "\<forall>r' \<in> set (r # rs). unset r' \<or> (\<exists>t. render r' = Inr t)"
    using Cons.prems by simp
  note IH = Cons.IH [OF ok]
  show ?case
  proof (cases "b \<noteq> r \<and> \<not> unset b")
    case False
    then have step: "merge_scan unset render str_of vp (r # rs) b s out =
        merge_scan unset render str_of vp rs r (Suc s) out"
      by auto
    have fb: "flush_beyond unset (length vp) s b (r # rs) = flush_beyond unset (length vp) (Suc s) r rs"
      using False by auto
    show ?thesis
      unfolding step fb using IH [of "Suc s" out] by simp
  next
    case True
    then obtain t where t: "render b = Inr t"
      using Cons.prems by auto
    show ?thesis
    proof (cases "s < length vp")
      case False
      then show ?thesis
        using True t by simp
    next
      case lt: True
      have step: "merge_scan unset render str_of vp (r # rs) b s out =
          merge_scan unset render str_of vp rs r (Suc s) (out @ [tree_statement (str_of (vp ! s)) t])"
        using True t lt by simp
      have fb: "flush_beyond unset (length vp) s b (r # rs) = flush_beyond unset (length vp) (Suc s) r rs"
        using lt by auto
      show ?thesis
        unfolding step fb using IH [of "Suc s" "out @ [tree_statement (str_of (vp ! s)) t]"] by simp
    qed
  qed
qed

lemma flush_beyond_more: "flush_beyond unset p s b rs \<Longrightarrow> p < s + length rs"
  by (induction rs arbitrary: s b) (auto, fastforce)

lemma planar_renderable:
  assumes "planar_well_formed fs lines"
  shows "\<forall>r \<in> set (([], []) # planar_records lines). planar_unset r \<or>
           (\<exists>t. planar_render fs fmt r = Inr t)"
  using planar_render_ok [OF assms] by auto

lemma planar_lookup_fails:
  assumes wf: "planar_well_formed fs lines"
    and beyond: "flush_beyond planar_unset (length vp) 0 ([], []) (planar_records lines)"
  shows "snd (planar_to_nexus fs fmt str_of lines vp L) = Some IndexError"
proof -
  have framed: "planar_framed lines"
    using wf by (simp add: planar_well_formed_def)
  obtain out' where "merge_scan planar_unset (planar_render fs fmt) str_of vp (planar_records lines)
      ([], []) 0 [nexus_header] = (out', Inl IndexError)"
    using merge_scan_flush_beyond [OF planar_renderable [OF wf, of fmt],
        where vp = vp and s = 0 and str_of = str_of and out = "[nexus_header]"] beyond
    by blast
  then have "planar_scan fs fmt str_of vp lines ([], []) [] 0 [nexus_header] = (out', Inl IndexError)"
    by (simp add: planar_scan_records [OF framed])
  then show ?thesis
    by (simp add: planar_to_nexus_def)
qed

lemma planar_lookups_in_range:
  assumes wf: "planar_well_formed fs lines"
    and within: "\<not> flush_beyond planar_unset (length vp) 0 ([], []) (planar_records lines)"
    and ne: "length (planar_records lines) \<noteq> length vp"
  shows "snd (planar_to_nexus fs fmt str_of lines vp L) =
    Some (ValueError (accounting_message (length (planar_records lines)) (length vp)))"
proof -
  have framed: "planar_framed lines"
    using wf by (simp add: planar_well_formed_def)
  obtain out' b' where "merge_scan planar_unset (planar_render fs fmt) str_of vp (planar_records lines)
      ([], []) 0 [nexus_header] = (out', Inr (b', 0 + length (planar_records lines)))"
    using merge_scan_flush_beyond [OF planar_renderable [OF wf, of fmt],
        where vp = vp and s = 0 and str_of = str_of and out = "[nexus_header]"] within
    by blast
  then obtain h' where "planar_scan fs fmt str_of vp lines ([], []) [] 0 [nexus_header] =
      (out', Inr (b', h', length (planar_records lines)))"
    by (simp add: planar_scan_records [OF framed])
  then show ?thesis
    using ne by (simp add: planar_to_nexus_def)
qed

lemma newicks_lookup_fails:
  assumes framed: "newick_framed newicks_file"
    and beyond: "flush_beyond (\<lambda>t. t = []) (length vp) 0 [] (newick_records newicks_file)"
  shows "snd (newicks_to_nexus str_of newicks_file vp L n) = Some IndexError"
proof -
  obtain out' where "merge_scan (\<lambda>t. t = []) Inr str_of vp (newick_records newicks_file) [] 0
      [nexus_header, translate_statement n] = (out', Inl IndexError)"
    using merge_scan_flush_beyond [where unset = "\<lambda>t. t = []" and render = Inr and b = "[]"
        and rs = "newick_records newicks_file" and s = 0 and vp = vp and str_of = str_of
        and out = "[nexus_header, translate_statement n]", OF newicks_renderable] beyond
    by blast
  then show ?thesis
    by (simp add: newicks_to_nexus_def newicks_scan_merge [OF framed])
qed

lemma newicks_lookups_in_range:
  assumes framed: "newick_framed newicks_file"
    and within: "\<not> flush_beyond (\<lambda>t. t = []) (length vp) 0 [] (newick_records newicks_file)"
    and ne: "length (newick_records newicks_file) \<noteq> length vp"
  shows "snd (newicks_to_nexus str_of newicks_file vp L n) =
    Some (ValueError (accounting_message (length (newick_records newicks_file)) (length vp)))"
proof -
  obtain out' b' where "merge_scan (\<lambda>t. t = []) Inr str_of vp (newick_records newicks_file) [] 0
      [nexus_header, translate_statement n] = (out', Inr (b', 0 + length (newick_records newicks_file)))"
    using merge_scan_flush_beyond [where unset = "\<lambda>t. t = []" and render = Inr and b = "[]"
        and rs = "newick_records newicks_file" and s = 0 and vp = vp and str_of = str_of
        and out = "[nexus_header, translate_statement n]", OF newicks_renderable] within
    by blast
  then show ?thesis
    using ne by (simp add: newicks_to_nexus_def newicks_scan_merge [OF framed])
qed

text \<open>
  C1, as the specification states it: a conversion would raise the accounting
  \<open>ValueError\<close> exactly when the number of site records differs from the length of
  the position index. It does not: with two different records and an empty position
  index, either conversion looks up \<^verbatim>\<open>variant_positions[1]\<close> when it flushes the first
  run and ends with \<open>IndexError\<close> before it reaches the check.
\<close>

theorem accounting_error_preempted:
  "length (planar_records [''0,1'' @ [nl], ''1'' @ [nl], ''1,0'' @ [nl], ''1'' @ [nl]]) \<noteq>
     length ([] :: nat list) \<and>
   snd (planar_to_nexus (fromstring_nat (CHR '','')) float_str show_nat
          [''0,1'' @ [nl], ''1'' @ [nl], ''1,0'' @ [nl], ''1'' @ [nl]] [] 100) = Some IndexError \<and>
   length (newick_records [''[0](0,1);'', ''[0](1,0);'']) \<noteq> length ([] :: nat list) \<and>
   snd (newicks_to_nexus show_nat [''[0](0,1);'', ''[0](1,0);''] [] 100 2) = Some IndexError"
  by code_simp

text \<open>
  C1, amended. For both conversions: the accounting \<open>ValueError\<close>, whose message names
  both counts, is raised exactly when the scan reaches the end of the input without
  another exception and the number of site records differs from the length of the
  position index; a difference of the two counts always ends the conversion with an
  exception. On well-formed input the outcome is decided by the records and the length
  of the index alone: when a buffered record is flushed at a site at or beyond the end
  of the index, which needs more records than positions, the lookup raises
  \<open>IndexError\<close>; when no flush lies there and the counts differ, the accounting error
  is raised, as it is whenever there are fewer records than positions; and when the
  counts agree nothing is raised, the groups of equal records have sizes that sum to
  the number of sites, and the output is the header, one \<^verbatim>\<open>TREE\<close> statement per group
  and \<open>END;\<close> (in the forward form when the last record has a non-empty height line,
  in the reverse form when every data line carries a tree).
\<close>

theorem accounting_error:
  "((snd (planar_to_nexus fromstring fmt str_of argentum_planar_file variant_positions seq_length) = Some (ValueError msg)) =
     ((\<exists>out st. planar_scan fromstring fmt str_of variant_positions argentum_planar_file
          ([], []) [] 0 [nexus_header] = (out, Inr st)) \<and>
      length (planar_records argentum_planar_file) \<noteq> length variant_positions \<and>
      msg = accounting_message (length (planar_records argentum_planar_file)) (length variant_positions))) \<and>
   (length (planar_records argentum_planar_file) \<noteq> length variant_positions \<longrightarrow>
      snd (planar_to_nexus fromstring fmt str_of argentum_planar_file variant_positions seq_length) \<noteq> None) \<and>
   (planar_well_formed fromstring argentum_planar_file \<longrightarrow>
      (flush_beyond planar_unset (length variant_positions) 0 ([], []) (planar_records argentum_planar_file) \<longrightarrow>
         length variant_positions < length (planar_records argentum_planar_file) \<and>
         snd (planar_to_nexus fromstring fmt str_of argentum_planar_file variant_positions seq_length) = Some IndexError) \<and>
      (\<not> flush_beyond planar_unset (length variant_positions) 0 ([], []) (planar_records argentum_planar_file) \<and>
          length (planar_records argentum_planar_file) \<noteq> length variant_positions \<longrightarrow>
         snd (planar_to_nexus fromstring fmt str_of argentum_planar_file variant_positions seq_length) =
           Some (ValueError (accounting_message (length (planar_records argentum_planar_file)) (length variant_positions)))) \<and>
      (length (planar_records argentum_planar_file) < length variant_positions \<longrightarrow>
         snd (planar_to_nexus fromstring fmt str_of argentum_planar_file variant_positions seq_length) =
           Some (ValueError (accounting_message (length (planar_records argentum_planar_file)) (length variant_positions)))) \<and>
      (length (planar_records argentum_planar_file) = length variant_positions \<longrightarrow>
         snd (planar_to_nexus fromstring fmt str_of argentum_planar_file variant_positions seq_length) = None \<and>
         sum_list (map length (group_eq (planar_records argentum_planar_file))) = length variant_positions \<and>
         (planar_records argentum_planar_file = [] \<or>
          snd (last (planar_records argentum_planar_file)) \<noteq> [] \<longrightarrow>
            fst (planar_to_nexus fromstring fmt str_of argentum_planar_file variant_positions seq_length) =
              nexus_header #
              run_statements (planar_tree fromstring fmt) str_of variant_positions seq_length 0
                (group_eq (planar_records argentum_planar_file)) @
              [nexus_end]))) \<and>
   ((snd (newicks_to_nexus str_of argentum_newicks_file variant_positions seq_length num_tips) = Some (ValueError msg)) =
     ((\<exists>out st. newicks_scan str_of variant_positions (rev argentum_newicks_file) [] 0
          [nexus_header, translate_statement num_tips] = (out, Inr st)) \<and>
      length (newick_records argentum_newicks_file) \<noteq> length variant_positions \<and>
      msg = accounting_message (length (newick_records argentum_newicks_file)) (length variant_positions))) \<and>
   (length (newick_records argentum_newicks_file) \<noteq> length variant_positions \<longrightarrow>
      snd (newicks_to_nexus str_of argentum_newicks_file variant_positions seq_length num_tips) \<noteq> None) \<and>
   (newick_framed argentum_newicks_file \<longrightarrow>
      (flush_beyond (\<lambda>t. t = []) (length variant_positions) 0 [] (newick_records argentum_newicks_file) \<longrightarrow>
         length variant_positions < length (newick_records argentum_newicks_file) \<and>
         snd (newicks_to_nexus str_of argentum_newicks_file variant_positions seq_length num_tips) = Some IndexError) \<and>
      (\<not> flush_beyond (\<lambda>t. t = []) (length variant_positions) 0 [] (newick_records argentum_newicks_file) \<and>
          length (newick_records argentum_newicks_file) \<noteq> length variant_positions \<longrightarrow>
         snd (newicks_to_nexus str_of argentum_newicks_file variant_positions seq_length num_tips) =
           Some (ValueError (accounting_message (length (newick_records argentum_newicks_file)) (length variant_positions)))) \<and>
      (length (newick_records argentum_newicks_file) < length variant_positions \<longrightarrow>
         snd (newicks_to_nexus str_of argentum_newicks_file variant_positions seq_length num_tips) =
           Some (ValueError (accounting_message (length (newick_records argentum_newicks_file)) (length variant_positions)))) \<and>
      (length (newick_records argentum_newicks_file) = length variant_positions \<longrightarrow>
         snd (newicks_to_nexus str_of argentum_newicks_file variant_positions seq_length num_tips) = None \<and>
         sum_list (map length (group_eq (newick_records argentum_newicks_file))) = length variant_positions \<and>
         (list_all (\<lambda>t. t \<noteq> []) (newick_records argentum_newicks_file) \<longrightarrow>
            fst (newicks_to_nexus str_of argentum_newicks_file variant_positions seq_length num_tips) =
              nexus_header # translate_statement num_tips #
              run_statements (\<lambda>t. t) str_of variant_positions seq_length 0
                (group_eq (newick_records argentum_newicks_file)) @
              [nexus_end])))"
proof (intro conjI impI)
  show "(snd (planar_to_nexus fromstring fmt str_of argentum_planar_file variant_positions seq_length) = Some (ValueError msg)) =
     ((\<exists>out st. planar_scan fromstring fmt str_of variant_positions argentum_planar_file
          ([], []) [] 0 [nexus_header] = (out, Inr st)) \<and>
      length (planar_records argentum_planar_file) \<noteq> length variant_positions \<and>
      msg = accounting_message (length (planar_records argentum_planar_file)) (length variant_positions))"
    by (rule planar_accounting_iff)
  show "(snd (newicks_to_nexus str_of argentum_newicks_file variant_positions seq_length num_tips) = Some (ValueError msg)) =
     ((\<exists>out st. newicks_scan str_of variant_positions (rev argentum_newicks_file) [] 0
          [nexus_header, translate_statement num_tips] = (out, Inr st)) \<and>
      length (newick_records argentum_newicks_file) \<noteq> length variant_positions \<and>
      msg = accounting_message (length (newick_records argentum_newicks_file)) (length variant_positions))"
    by (rule newicks_accounting_iff)
next
  assume "length (planar_records argentum_planar_file) \<noteq> length variant_positions"
  then show "snd (planar_to_nexus fromstring fmt str_of argentum_planar_file variant_positions seq_length) \<noteq> None"
    by (rule planar_mismatch_fatal)
next
  assume "length (newick_records argentum_newicks_file) \<noteq> length variant_positions"
  then show "snd (newicks_to_nexus str_of argentum_newicks_file variant_positions seq_length num_tips) \<noteq> None"
    by (rule newicks_mismatch_fatal)
next
  assume wf: "planar_well_formed fromstring argentum_planar_file"
  {
    assume beyond: "flush_beyond planar_unset (length variant_positions) 0 ([], []) (planar_records argentum_planar_file)"
    then show "length variant_positions < length (planar_records argentum_planar_file)"
      using flush_beyond_more [of planar_unset "length variant_positions" 0] by fastforce
    from wf beyond show "snd (planar_to_nexus fromstring fmt str_of argentum_planar_file variant_positions seq_length) = Some IndexError"
      by (rule planar_lookup_fails)
  }
  {
    assume "\<not> flush_beyond planar_unset (length variant_positions) 0 ([], []) (planar_records argentum_planar_file) \<and>
          length (planar_records argentum_planar_file) \<noteq> length variant_positions"
    with wf show "snd (planar_to_nexus fromstring fmt str_of argentum_planar_file variant_positions seq_length) =
           Some (ValueError (accounting_message (length (planar_records argentum_planar_file)) (length variant_positions)))"
      by (intro planar_lookups_in_range) simp_all
  }
  {
    assume "length (planar_records argentum_planar_file) < length variant_positions"
    with wf show "snd (planar_to_nexus fromstring fmt str_of argentum_planar_file variant_positions seq_length) =
           Some (ValueError (accounting_message (length (planar_records argentum_planar_file)) (length variant_positions)))"
      by (rule planar_fewer_records)
  }
  assume eq: "length (planar_records argentum_planar_file) = length variant_positions"
  show "snd (planar_to_nexus fromstring fmt str_of argentum_planar_file variant_positions seq_length) = None"
    using wf eq by (rule planar_counts_agree(1))
  show "sum_list (map length (group_eq (planar_records argentum_planar_file))) = length variant_positions"
    using eq by (simp add: sum_length_group_eq)
  assume "planar_records argentum_planar_file = [] \<or>
          snd (last (planar_records argentum_planar_file)) \<noteq> []"
  with wf eq show "fst (planar_to_nexus fromstring fmt str_of argentum_planar_file variant_positions seq_length) =
              nexus_header #
              run_statements (planar_tree fromstring fmt) str_of variant_positions seq_length 0
                (group_eq (planar_records argentum_planar_file)) @
              [nexus_end]"
    by (rule planar_counts_agree(2))
next
  assume framed: "newick_framed argentum_newicks_file"
  {
    assume beyond: "flush_beyond (\<lambda>t. t = []) (length variant_positions) 0 [] (newick_records argentum_newicks_file)"
    then show "length variant_positions < length (newick_records argentum_newicks_file)"
      using flush_beyond_more [of "\<lambda>t. t = []" "length variant_positions" 0] by fastforce
    from framed beyond show "snd (newicks_to_nexus str_of argentum_newicks_file variant_positions seq_length num_tips) = Some IndexError"
      by (rule newicks_lookup_fails)
  }
  {
    assume "\<not> flush_beyond (\<lambda>t. t = []) (length variant_positions) 0 [] (newick_records argentum_newicks_file) \<and>
          length (newick_records argentum_newicks_file) \<noteq> length variant_positions"
    with framed show "snd (newicks_to_nexus str_of argentum_newicks_file variant_positions seq_length num_tips) =
           Some (ValueError (accounting_message (length (newick_records argentum_newicks_file)) (length variant_positions)))"
      by (intro newicks_lookups_in_range) simp_all
  }
  {
    assume "length (newick_records argentum_newicks_file) < length variant_positions"
    with framed show "snd (newicks_to_nexus str_of argentum_newicks_file variant_positions seq_length num_tips) =
           Some (ValueError (accounting_message (length (newick_records argentum_newicks_file)) (length variant_positions)))"
      by (rule newicks_fewer_records)
  }
  assume eq: "length (newick_records argentum_newicks_file) = length variant_positions"
  show "snd (newicks_to_nexus str_of argentum_newicks_file variant_positions seq_length num_tips) = None"
    using framed eq by (rule newicks_counts_agree(1))
  show "sum_list (map length (group_eq (newick_records argentum_newicks_file))) = length variant_positions"
    using eq by (simp add: sum_length_group_eq)
  assume "list_all (\<lambda>t. t \<noteq> []) (newick_records argentum_newicks_file)"
  with framed eq show "fst (newicks_to_nexus str_of argentum_newicks_file variant_positions seq_length num_tips) =
              nexus_header # translate_statement num_tips #
              run_statements (\<lambda>t. t) str_of variant_positions seq_length 0
                (group_eq (newick_records argentum_newicks_file)) @
              [nexus_end]"
    by (rule newicks_counts_agree(2))
qed

theorem accounting_error_witness:
  "snd (planar_to_nexus (fromstring_nat (CHR '','')) float_str show_nat
          [''0,1,2'' @ [nl], ''1,2'' @ [nl], ''0,1,2'' @ [nl], ''1,2'' @ [nl], ''2,1,0'' @ [nl], ''1,1'' @ [nl]]
          [10, 20, 30] 100) = None \<and>
   fst (planar_to_nexus (fromstring_nat (CHR '','')) float_str show_nat
          [''0,1,2'' @ [nl], ''1,2'' @ [nl], ''0,1,2'' @ [nl], ''1,2'' @ [nl], ''2,1,0'' @ [nl], ''1,1'' @ [nl]]
          [10, 20, 30] 100) =
     [nexus_header,
      ''TREE 30 = ((0:1.0,1:1.0):2.0,2:2.0);'' @ [nl],
      ''TREE 100 = (2:1.0,1:1.0,0:1.0);'' @ [nl],
      nexus_end] \<and>
   sum_list (map length (group_eq (planar_records
          [''0,1,2'' @ [nl], ''1,2'' @ [nl], ''0,1,2'' @ [nl], ''1,2'' @ [nl], ''2,1,0'' @ [nl], ''1,1'' @ [nl]]))) = 3 \<and>
   snd (planar_to_nexus (fromstring_nat (CHR '','')) float_str show_nat
          [''0,1,2'' @ [nl], ''1,2'' @ [nl], ''0,1,2'' @ [nl], ''1,2'' @ [nl], ''2,1,0'' @ [nl], ''1,1'' @ [nl]]
          [10, 20, 30, 40] 100) = Some (ValueError ''argentum bug hit: 3 trees but 4 sites'') \<and>
   snd (planar_to_nexus (fromstring_nat (CHR '','')) float_str show_nat
          [''0,1,2'' @ [nl], ''1,2'' @ [nl], ''0,1,2'' @ [nl], ''1,2'' @ [nl], ''2,1,0'' @ [nl], ''1,1'' @ [nl]]
          [10] 100) = Some IndexError \<and>
   snd (planar_to_nexus (fromstring_nat (CHR '','')) float_str show_nat
          [''0,1'' @ [nl], ''1'' @ [nl], ''0,1'' @ [nl], ''1'' @ [nl]]
          [10] 100) = Some (ValueError ''argentum bug hit: 2 trees but 1 sites'') \<and>
   snd (newicks_to_nexus show_nat [''[0](2,1);'', ''[0](1,2);'', ''# note'', ''[0](1,2);''] [10, 20, 30] 100 3) = None \<and>
   fst (newicks_to_nexus show_nat [''[0](2,1);'', ''[0](1,2);'', ''# note'', ''[0](1,2);''] [10, 20, 30] 100 3) =
     [nexus_header, translate_statement 3,
      ''TREE 30 = (1,2);'' @ [nl],
      ''TREE 100 = (2,1);'' @ [nl],
      nexus_end] \<and>
   snd (newicks_to_nexus show_nat [''[0](2,1);'', ''[0](1,2);'', ''# note'', ''[0](1,2);''] [10, 20, 30, 40] 100 3) =
     Some (ValueError ''argentum bug hit: 3 trees but 4 sites'') \<and>
   snd (newicks_to_nexus show_nat [''[0](2,1);'', ''[0](1,2);'', ''# note'', ''[0](1,2);''] [10] 100 3) =
     Some IndexError \<and>
   snd (newicks_to_nexus show_nat [''[0](1,2);'', ''[0](1,2);''] [10] 100 3) =
     Some (ValueError ''argentum bug hit: 2 trees but 1 sites'')"
proof -
  let ?F = "[''0,1,2'' @ [nl], ''1,2'' @ [nl], ''0,1,2'' @ [nl], ''1,2'' @ [nl], ''2,1,0'' @ [nl], ''1,1'' @ [nl]]"
  let ?F2 = "[''0,1'' @ [nl], ''1'' @ [nl], ''0,1'' @ [nl], ''1'' @ [nl]]"
  let ?G = "[''[0](2,1);'', ''[0](1,2);'', ''# note'', ''[0](1,2);'']"
  let ?G2 = "[''[0](1,2);'', ''[0](1,2);'']"
  let ?fs = "fromstring_nat (CHR '','')"
  have wf: "planar_well_formed ?fs ?F" "planar_well_formed ?fs ?F2"
    by code_simp+
  have framed: "newick_framed ?G" "newick_framed ?G2"
    by code_simp+
  have n3: "length (planar_records ?F) = length [10, 20, 30 :: nat]"
    by code_simp
  have n4: "length (planar_records ?F) < length [10, 20, 30, 40 :: nat]"
    by code_simp
  have m3: "length (newick_records ?G) = length [10, 20, 30 :: nat]"
    by code_simp
  have m4: "length (newick_records ?G) < length [10, 20, 30, 40 :: nat]"
    by code_simp
  have beyond: "flush_beyond planar_unset (length [10 :: nat]) 0 ([], []) (planar_records ?F)"
    "flush_beyond (\<lambda>t. t = []) (length [10 :: nat]) 0 [] (newick_records ?G)"
    by code_simp+
  have within: "\<not> flush_beyond planar_unset (length [10 :: nat]) 0 ([], []) (planar_records ?F2) \<and>
      length (planar_records ?F2) \<noteq> length [10 :: nat]"
    "\<not> flush_beyond (\<lambda>t. t = []) (length [10 :: nat]) 0 [] (newick_records ?G2) \<and>
      length (newick_records ?G2) \<noteq> length [10 :: nat]"
    by code_simp+
  have fin: "planar_records ?F = [] \<or> snd (last (planar_records ?F)) \<noteq> []"
    by code_simp
  have trees: "list_all (\<lambda>t. t \<noteq> []) (newick_records ?G)"
    by code_simp
  have msg: "accounting_message (length (planar_records ?F)) (length [10, 20, 30, 40 :: nat]) =
      ''argentum bug hit: 3 trees but 4 sites''"
    "accounting_message (length (newick_records ?G)) (length [10, 20, 30, 40 :: nat]) =
      ''argentum bug hit: 3 trees but 4 sites''"
    "accounting_message (length (planar_records ?F2)) (length [10 :: nat]) =
      ''argentum bug hit: 2 trees but 1 sites''"
    "accounting_message (length (newick_records ?G2)) (length [10 :: nat]) =
      ''argentum bug hit: 2 trees but 1 sites''"
    by code_simp+
  have stmts: "nexus_header #
      run_statements (planar_tree ?fs float_str) show_nat [10, 20, 30] 100 0 (group_eq (planar_records ?F)) @
      [nexus_end] =
     [nexus_header,
      ''TREE 30 = ((0:1.0,1:1.0):2.0,2:2.0);'' @ [nl],
      ''TREE 100 = (2:1.0,1:1.0,0:1.0);'' @ [nl],
      nexus_end]"
    by code_simp
  have nstmts: "nexus_header # translate_statement 3 #
      run_statements (\<lambda>t. t) show_nat [10, 20, 30] 100 0 (group_eq (newick_records ?G)) @
      [nexus_end] =
     [nexus_header, translate_statement 3,
      ''TREE 30 = (1,2);'' @ [nl],
      ''TREE 100 = (2,1);'' @ [nl],
      nexus_end]"
    by code_simp
  have total: "length [10, 20, 30 :: nat] = 3"
    by simp
  note agree = accounting_error [where fromstring = ?fs and fmt = float_str and str_of = show_nat
      and argentum_planar_file = ?F and argentum_newicks_file = ?G
      and variant_positions = "[10, 20, 30]" and seq_length = 100 and num_tips = 3 and msg = "[]"]
  note fewer = accounting_error [where fromstring = ?fs and fmt = float_str and str_of = show_nat
      and argentum_planar_file = ?F and argentum_newicks_file = ?G
      and variant_positions = "[10, 20, 30, 40]" and seq_length = 100 and num_tips = 3 and msg = "[]"]
  note lookup = accounting_error [where fromstring = ?fs and fmt = float_str and str_of = show_nat
      and argentum_planar_file = ?F and argentum_newicks_file = ?G
      and variant_positions = "[10]" and seq_length = 100 and num_tips = 3 and msg = "[]"]
  note more = accounting_error [where fromstring = ?fs and fmt = float_str and str_of = show_nat
      and argentum_planar_file = ?F2 and argentum_newicks_file = ?G2
      and variant_positions = "[10]" and seq_length = 100 and num_tips = 3 and msg = "[]"]
  have a: "snd (planar_to_nexus ?fs float_str show_nat ?F [10, 20, 30] 100) = None"
    "sum_list (map length (group_eq (planar_records ?F))) = length [10, 20, 30 :: nat]"
    "fst (planar_to_nexus ?fs float_str show_nat ?F [10, 20, 30] 100) =
       nexus_header #
       run_statements (planar_tree ?fs float_str) show_nat [10, 20, 30] 100 0 (group_eq (planar_records ?F)) @
       [nexus_end]"
    "snd (newicks_to_nexus show_nat ?G [10, 20, 30] 100 3) = None"
    "fst (newicks_to_nexus show_nat ?G [10, 20, 30] 100 3) =
       nexus_header # translate_statement 3 #
       run_statements (\<lambda>t. t) show_nat [10, 20, 30] 100 0 (group_eq (newick_records ?G)) @
       [nexus_end]"
    using agree wf(1) framed(1) n3 m3 fin trees by blast+
  have d: "snd (planar_to_nexus ?fs float_str show_nat ?F [10, 20, 30, 40] 100) =
       Some (ValueError (accounting_message (length (planar_records ?F)) (length [10, 20, 30, 40 :: nat])))"
    "snd (newicks_to_nexus show_nat ?G [10, 20, 30, 40] 100 3) =
       Some (ValueError (accounting_message (length (newick_records ?G)) (length [10, 20, 30, 40 :: nat])))"
    using fewer wf(1) framed(1) n4 m4 by blast+
  have l: "snd (planar_to_nexus ?fs float_str show_nat ?F [10] 100) = Some IndexError"
    "snd (newicks_to_nexus show_nat ?G [10] 100 3) = Some IndexError"
    using lookup wf(1) framed(1) beyond by blast+
  have m: "snd (planar_to_nexus ?fs float_str show_nat ?F2 [10] 100) =
       Some (ValueError (accounting_message (length (planar_records ?F2)) (length [10 :: nat])))"
    "snd (newicks_to_nexus show_nat ?G2 [10] 100 3) =
       Some (ValueError (accounting_message (length (newick_records ?G2)) (length [10 :: nat])))"
    using more wf(2) framed(2) within by blast+
  show ?thesis
    unfolding a(1) a(3) a(4) a(5) d l m stmts nstmts msg
    using a(2) total by simp
qed

section \<open>The last run of the forward form\<close>

text \<open>
  C4 says that every maximal group of equal records of the forward form gets exactly
  one \<^verbatim>\<open>TREE\<close> statement, the group that holds the last site tagged with the sequence
  length. On a file whose only record is the single-tip order \<open>0\<close> with an empty
  height line, for which the clusterer returns \<open>0;\<close>, \<open>planar_to_nexus\<close> writes the
  header and \<open>END;\<close> and no \<^verbatim>\<open>TREE\<close> statement, and raises nothing: the flush after
  the loop tests the last height line read, while the flush inside the loop tests the
  buffered order, so the same record is written when another record follows it.
\<close>

theorem planar_to_nexus_single_tip_run:
  "planar_records [''0'' @ [nl], [nl]] = [(''0'', [])] \<and>
   planar_order_to_newick (fromstring_nat (CHR '','')) float_str ''0'' [] True = Inr ''0;'' \<and>
   planar_to_nexus (fromstring_nat (CHR '','')) float_str show_nat [''0'' @ [nl], [nl]] [7] 100 =
     ([nexus_header, nexus_end], None) \<and>
   planar_to_nexus (fromstring_nat (CHR '','')) float_str show_nat
     [''0'' @ [nl], [nl], ''0,1'' @ [nl], ''1'' @ [nl]] [7, 9] 100 =
     ([nexus_header, ''TREE 9 = 0;'' @ [nl], ''TREE 100 = (0:1.0,1:1.0);'' @ [nl], nexus_end], None)"
  by code_simp

end
